theory Spec2Isabelle
  imports Complex_Main "HOL-Library.Word" "HOL-Library.Monad_Syntax"
begin

unbundle bit_operations_syntax

section \<open>A model of the drum machine in drummer.c\<close>

text \<open>
  The program keeps all of its state in file-level variables. The model groups them in
  two records, following the two sections of the source: \<open>sequencer\<close> holds the counters,
  timing parameters and voices of the "non-h/w specific" half, \<open>machine\<close> adds the block
  buffers and the two buffer cursors of the DMA half.

  Conventions.
  \<^item> A C \<open>int\<close> is an Isabelle \<open>int\<close>. Signed overflow is undefined in C. In every
    state that satisfies the range invariant \<open>wf\<close> below the counters stay under their
    bounds (\<open>LOOP_BARS\<close>, \<open>BAR_LEN\<close>, \<open>samplesPerTick\<close>, the sample lengths), and
    \<open>index1\<close> is at most 400 after a call, so none of them overflows. The accumulators of the mix are the exact
    sums; reduced modulo \<open>2 ^ 32\<close> they are the values of the \<open>int32_t\<close> variables on a
    machine that wraps around.
  \<^item> An \<open>int16_t\<close> is a \<open>16 word\<close> and a \<open>uint32_t\<close> a \<open>32 word\<close>.
  \<^item> Every array read goes through \<open>rd\<close>: a read outside the array, which is undefined
    behaviour in C, is the value \<open>None\<close>, and so is the dereference of a null pointer.
  \<^item> The five sample headers (\<open>samples/drum_*.h\<close>) are not part of the repository
    files at hand: the sample bank \<open>snds\<close> is a parameter of the model.
  \<^item> The floating point expression of the test tone,
    \<open>(int16_t)(15000.0 * sin(index1 * 2.0 * 3.142 / 400.0) + 15000.0)\<close>, is the parameter
    \<open>tone\<close>, a function of the integer \<open>index1\<close>.
  \<^item> \<open>printf\<close>, the I2C register writes and the PIO/DMA set-up have no effect on the
    variables modelled here and are left out.
\<close>

subsection \<open>C arithmetic and array reads\<close>

definition c_div :: "int \<Rightarrow> int \<Rightarrow> int" where
  "c_div a b = sgn a * sgn b * (\<bar>a\<bar> div \<bar>b\<bar>)"

definition c_mod :: "int \<Rightarrow> int \<Rightarrow> int" where
  "c_mod a b = a - b * c_div a b"

definition rd :: "'a list \<Rightarrow> int \<Rightarrow> 'a option" where
  "rd xs i = (if 0 \<le> i \<and> i < int (length xs) then Some (xs ! nat i) else None)"

subsection \<open>Constants\<close>

definition N_BUFFERS :: int where "N_BUFFERS = 4"
definition BUFFER_SIZE :: int where "BUFFER_SIZE = 49"
definition N_VOICES :: int where "N_VOICES = 6"
definition BPM :: int where "BPM = 155"
definition BEATS_PER_BAR :: int where "BEATS_PER_BAR = 4"
definition BAR_LEN :: int where "BAR_LEN = 72"
definition LOOP_BARS :: int where "LOOP_BARS = 10"

text \<open>
  \<open>SAMPLE_RATE\<close> is \<open>((int)(125000000/PIO_I2S_CLKDIV/32/2))\<close> with
  \<open>PIO_I2S_CLKDIV = 44.25F\<close>. The quotient is taken here over the rationals; the
  conversion to \<open>int\<close> drops the fraction.
\<close>

definition PIO_I2S_CLKDIV :: rat where "PIO_I2S_CLKDIV = 177 / 4"

definition SAMPLE_RATE :: int where
  "SAMPLE_RATE = \<lfloor>125000000 / PIO_I2S_CLKDIV / 32 / 2\<rfloor>"

subsection \<open>Data\<close>

record Sounds =
  samples :: "16 word list"
  len :: nat

record voice =
  pan :: int
  volume :: int
  sample :: int
  pos :: int
  emph :: int

record Pattern =
  pattern :: "string list"

record sequencer =
  bar :: int
  tickOfBar :: int
  sampleOfTick :: int
  samplesPerBeat :: int
  samplesPerTick :: int
  voices :: "voice list"
  index1 :: int

record machine =
  buffer :: "32 word list list"
  buffer_playing :: int
  buffer_to_fill :: int
  seq :: sequencer

definition mk_voice :: "int \<Rightarrow> int \<Rightarrow> int \<Rightarrow> int \<Rightarrow> int \<Rightarrow> voice" where
  "mk_voice pn vl sm ps em = \<lparr>pan = pn, volume = vl, sample = sm, pos = ps, emph = em\<rparr>"

definition voices_init :: "voice list" where
  "voices_init =
    [mk_voice 16 192 0 0 0,
     mk_voice 8 0 1 0 0,
     mk_voice 16 40 2 0 0,
     mk_voice 18 80 3 0 0,
     mk_voice 28 30 4 0 0,
     mk_voice 4 30 0 0 0]"

definition pattern0 :: Pattern where
  "pattern0 = \<lparr>pattern =
    [''1        1                     1    1        1                          '',
     ''                                                                        '',
     ''                  1                                   1                 '',
     ''                                                                        '',
     ''1        1        1        1        1        1        1        1        '',
     ''                                                                        '']\<rparr>"

definition pattern1 :: Pattern where
  "pattern1 = \<lparr>pattern =
    [''9                                   1                                   '',
     ''                                                                        '',
     ''4        1        1        1        3        1        1        1        '',
     ''                                                                        '',
     ''                                                                        '',
     ''                                                                        '']\<rparr>"

definition pattern2 :: Pattern where
  "pattern2 = \<lparr>pattern =
    [''9                                   1                                   '',
     ''         1                 1                 1                 1        '',
     ''1                 1                 1                 1                 '',
     ''5        1        1        1        1        1                 1        '',
     ''5                          1                 1                          '',
     ''         1                          4                          1        '']\<rparr>"

text \<open>
  \<open>patterns\<close> has \<open>LOOP_BARS\<close> slots of which the initialiser fills three; the others
  are null pointers.
\<close>

definition patterns :: "Pattern option list" where
  "patterns = [Some pattern0, Some pattern1, Some pattern2,
               None, None, None, None, None, None, None]"

definition bars :: "int list" where
  "bars = [0, 0, 0, 2, 2, 2, 2, 2, 1, 0]"

text \<open>The statically initialised variables, as they are when \<open>main\<close> starts.\<close>

definition seq_init :: sequencer where
  "seq_init = \<lparr>bar = 0, tickOfBar = 0, sampleOfTick = 0, samplesPerBeat = 0,
     samplesPerTick = 0, voices = voices_init, index1 = 0\<rparr>"

definition machine_init :: machine where
  "machine_init = \<lparr>buffer = replicate (nat N_BUFFERS) (replicate (nat BUFFER_SIZE) 0),
     buffer_playing = 0, buffer_to_fill = 0, seq = seq_init\<rparr>"

subsection \<open>The frame generator\<close>

text \<open>The pattern cell \<open>patterns[bars[bar]]->pattern[i][tickOfBar]\<close>.\<close>

definition cell :: "sequencer \<Rightarrow> int \<Rightarrow> char option" where
  "cell st i = do {
     b \<leftarrow> rd bars (bar st);
     pp \<leftarrow> rd patterns b;
     p \<leftarrow> pp;
     row \<leftarrow> rd (pattern p) i;
     rd row (tickOfBar st)
   }"

text \<open>
  The body of the trigger loop for one voice. \<open>char\<close> is unsigned on the ARM target, so
  the promoted cell is \<open>of_char c\<close>, between 0 and 255.
\<close>

definition trigger_voice :: "char \<Rightarrow> voice \<Rightarrow> voice" where
  "trigger_voice c v =
     (if c \<noteq> CHR '' '' then
        v\<lparr>pos := 1, emph := (of_char c - of_char (CHR ''1'')) * 12\<rparr>
      else v)"

fun trigger_loop :: "sequencer \<Rightarrow> int \<Rightarrow> voice list \<Rightarrow> voice list option" where
  "trigger_loop st i [] = Some []"
| "trigger_loop st i (v # vs) = do {
     c \<leftarrow> cell st i;
     vs' \<leftarrow> trigger_loop st (i + 1) vs;
     Some (trigger_voice c v # vs')
   }"

definition trigger :: "sequencer \<Rightarrow> sequencer option" where
  "trigger st =
     (if sampleOfTick st = 0 then
        map_option (\<lambda>vs. st\<lparr>voices := vs\<rparr>) (trigger_loop st 0 (voices st))
      else Some st)"

text \<open>
  The body of the playback loop for one voice: the amplitude read and the voice
  afterwards. The comparison with \<open>len\<close> is unsigned in C (\<open>size_t\<close>); the cursor is
  positive there, so the conversion changes nothing.
\<close>

definition play_voice :: "Sounds list \<Rightarrow> voice \<Rightarrow> (int \<times> voice) option" where
  "play_voice snds v =
     (if 0 \<le> sample v then do {
        s \<leftarrow> rd snds (sample v);
        a \<leftarrow> rd (samples s) (pos v);
        Some (sint a,
          if pos v \<noteq> 0 then
            (let v' = v\<lparr>pos := pos v + 1\<rparr>
             in if int (len s) \<le> pos v' then v'\<lparr>pos := 0\<rparr> else v')
          else v)
      }
      else Some (0, v))"

fun play_loop :: "Sounds list \<Rightarrow> voice list \<Rightarrow> (int list \<times> voice list) option" where
  "play_loop snds [] = Some ([], [])"
| "play_loop snds (v # vs) = do {
     (a, v') \<leftarrow> play_voice snds v;
     (as, vs') \<leftarrow> play_loop snds vs;
     Some (a # as, v' # vs')
   }"

text \<open>The mixing loop: \<open>output[0]\<close> and \<open>output[1]\<close> as a pair.\<close>

fun mix_loop :: "voice list \<Rightarrow> int list \<Rightarrow> int \<times> int \<Rightarrow> int \<times> int" where
  "mix_loop (v # vs) (a # as) (out0, out1) =
     (let vol = emph v + volume v
      in mix_loop vs as (out0 + vol * a * pan v, out1 + vol * a * (32 - pan v)))"
| "mix_loop vs as out = out"

definition mix :: "voice list \<Rightarrow> int list \<Rightarrow> int \<times> int" where
  "mix vs as = mix_loop vs as (0, 0)"

text \<open>Lines 211 to 240: trigger, playback and mix of one frame.\<close>

definition synth :: "Sounds list \<Rightarrow> sequencer \<Rightarrow> ((int \<times> int) \<times> sequencer) option" where
  "synth snds st = do {
     st1 \<leftarrow> trigger st;
     (as, vs) \<leftarrow> play_loop snds (voices st1);
     Some (mix vs as, st1\<lparr>voices := vs\<rparr>)
   }"

text \<open>Lines 242 to 252: the transport counters.\<close>

definition advance :: "sequencer \<Rightarrow> sequencer" where
  "advance st =
     (let st1 = st\<lparr>sampleOfTick := sampleOfTick st + 1\<rparr> in
      if sampleOfTick st1 = samplesPerTick st1 then
        (let st2 = st1\<lparr>sampleOfTick := 0, tickOfBar := tickOfBar st1 + 1\<rparr> in
         if tickOfBar st2 = BAR_LEN then
           (let st3 = st2\<lparr>tickOfBar := 0, bar := bar st2 + 1\<rparr> in
            if bar st3 = LOOP_BARS then st3\<lparr>bar := 0\<rparr> else st3)
         else st2)
      else st1)"

text \<open>
  The union \<open>smpl_data\<close>: the 32-bit view of two 16-bit halves, \<open>d2[0]\<close> in the low
  half on the little-endian target.
\<close>

definition smpl_d1 :: "16 word \<Rightarrow> 16 word \<Rightarrow> 32 word" where
  "smpl_d1 d20 d21 = ucast d20 OR push_bit 16 (ucast d21)"

text \<open>Lines 257 to 267: the word that is returned.\<close>

definition test_tone :: "(int \<Rightarrow> 16 word) \<Rightarrow> sequencer \<Rightarrow> 32 word \<times> sequencer" where
  "test_tone tone st =
     (let i = (if 400 \<le> index1 st then 0 else index1 st);
          ret = tone i
      in (smpl_d1 ret ret, st\<lparr>index1 := i + 1\<rparr>))"

definition generate_sample ::
  "(int \<Rightarrow> 16 word) \<Rightarrow> Sounds list \<Rightarrow> sequencer \<Rightarrow> (32 word \<times> sequencer) option" where
  "generate_sample tone snds st = do {
     (output, st1) \<leftarrow> synth snds st;
     Some (test_tone tone (advance st1))
   }"

text \<open>
  The return statement of line 256, which the source has commented out under the comment
  "Convert samples back to 16 bit":
  \<open>(((output[0] >> 15)&0xFFFF) << 16) + ((output[1] >> 15) & 0xFFFF)\<close>.
  It is not part of \<open>generate_sample\<close>; it is kept to compare with the word that is
  returned.
\<close>

definition disabled_return :: "int \<times> int \<Rightarrow> 32 word" where
  "disabled_return out =
     push_bit 16 (take_bit 16 (word_of_int (fst out div 2 ^ 15))) +
     take_bit 16 (word_of_int (snd out div 2 ^ 15))"

text \<open>\<open>run n\<close> is \<open>n\<close> calls in a row; \<open>emitted k\<close> is the word returned by call number \<open>k\<close>
  (counting from 0).\<close>

fun run :: "(int \<Rightarrow> 16 word) \<Rightarrow> Sounds list \<Rightarrow> nat \<Rightarrow> sequencer \<Rightarrow> sequencer option" where
  "run tone snds 0 st = Some st"
| "run tone snds (Suc n) st = do {
     (w, st') \<leftarrow> generate_sample tone snds st;
     run tone snds n st'
   }"

definition emitted ::
  "(int \<Rightarrow> 16 word) \<Rightarrow> Sounds list \<Rightarrow> nat \<Rightarrow> sequencer \<Rightarrow> 32 word option" where
  "emitted tone snds k st = do {
     sk \<leftarrow> run tone snds k st;
     (w, st') \<leftarrow> generate_sample tone snds sk;
     Some w
   }"

subsection \<open>The buffer ring\<close>

text \<open>The loop of \<open>drum_fill_buffer\<close> over the frame slots \<open>is\<close> of one block \<open>row\<close>.\<close>

fun fill_frames ::
  "(int \<Rightarrow> 16 word) \<Rightarrow> Sounds list \<Rightarrow> nat list \<Rightarrow> 32 word list \<Rightarrow> sequencer
     \<Rightarrow> (32 word list \<times> sequencer) option" where
  "fill_frames tone snds [] row st = Some (row, st)"
| "fill_frames tone snds (i # is) row st = do {
     (w, st') \<leftarrow> generate_sample tone snds st;
     if i < length row then fill_frames tone snds is (row[i := w]) st' else None
   }"

definition drum_fill_buffer ::
  "(int \<Rightarrow> 16 word) \<Rightarrow> Sounds list \<Rightarrow> machine \<Rightarrow> machine option" where
  "drum_fill_buffer tone snds m =
     (if buffer_playing m = buffer_to_fill m then Some m
      else do {
        row \<leftarrow> rd (buffer m) (buffer_to_fill m);
        (row', st') \<leftarrow> fill_frames tone snds [0..<nat BUFFER_SIZE] row (seq m);
        Some (m\<lparr>buffer := (buffer m)[nat (buffer_to_fill m) := row'],
                seq := st',
                buffer_to_fill := c_mod (buffer_to_fill m + 1) N_BUFFERS\<rparr>)
      })"

definition dma_handler :: "machine \<Rightarrow> machine" where
  "dma_handler m =
     (if buffer_playing m = N_BUFFERS - 1 then m\<lparr>buffer_playing := 0\<rparr>
      else m\<lparr>buffer_playing := buffer_playing m + 1\<rparr>)"

text \<open>The start of \<open>main\<close>, lines 429 to 435: the timing parameters and the priming loop.\<close>

fun fill_n :: "(int \<Rightarrow> 16 word) \<Rightarrow> Sounds list \<Rightarrow> nat \<Rightarrow> machine \<Rightarrow> machine option" where
  "fill_n tone snds 0 m = Some m"
| "fill_n tone snds (Suc n) m = do {
     m' \<leftarrow> drum_fill_buffer tone snds m;
     fill_n tone snds n m'
   }"

definition set_timing :: "sequencer \<Rightarrow> sequencer" where
  "set_timing st =
     (let st1 = st\<lparr>samplesPerBeat := c_div (SAMPLE_RATE * 60) BPM\<rparr>
      in st1\<lparr>samplesPerTick := c_div (samplesPerBeat st1 * BEATS_PER_BAR) BAR_LEN\<rparr>)"

definition main_prime :: "(int \<Rightarrow> 16 word) \<Rightarrow> Sounds list \<Rightarrow> machine \<Rightarrow> machine option" where
  "main_prime tone snds m = do {
     m' \<leftarrow> fill_n tone snds (nat N_BUFFERS) (m\<lparr>seq := set_timing (seq m), buffer_playing := - 1\<rparr>);
     Some (m'\<lparr>buffer_playing := N_BUFFERS - 1\<rparr>)
   }"

text \<open>
  The call made in state \<open>st\<close> triggers voice \<open>i\<close>: it is the first frame of a tick and the
  cell of the voice is not the space.
\<close>

definition triggers :: "sequencer \<Rightarrow> int \<Rightarrow> bool" where
  "triggers st i \<longleftrightarrow> sampleOfTick st = 0 \<and> cell st i \<noteq> Some (CHR '' '')"

subsection \<open>Well-formed states\<close>

text \<open>
  The range invariant. The bank has the five entries of \<open>sounds[]\<close>, each with its true
  length (\<open>sizeof\<close>) and at least two samples, so that the read at cursor 1 after a trigger
  is inside the waveform; every voice refers to an entry of the bank (or to none, when
  \<open>sample\<close> is negative) and its cursor is inside the waveform; the counters are below
  their bounds.
\<close>

definition wf_sounds :: "Sounds list \<Rightarrow> bool" where
  "wf_sounds snds \<longleftrightarrow>
     length snds = 5 \<and> (\<forall>s \<in> set snds. len s = length (samples s) \<and> 2 \<le> len s)"

definition wf_voice :: "Sounds list \<Rightarrow> voice \<Rightarrow> bool" where
  "wf_voice snds v \<longleftrightarrow>
     sample v < int (length snds) \<and>
     (0 \<le> sample v \<longrightarrow> 0 \<le> pos v \<and> pos v < int (len (snds ! nat (sample v))))"

definition wf_transport :: "sequencer \<Rightarrow> bool" where
  "wf_transport st \<longleftrightarrow>
     0 \<le> bar st \<and> bar st < LOOP_BARS \<and>
     0 \<le> tickOfBar st \<and> tickOfBar st < BAR_LEN \<and>
     0 \<le> sampleOfTick st \<and> sampleOfTick st < samplesPerTick st"

definition wf :: "Sounds list \<Rightarrow> sequencer \<Rightarrow> bool" where
  "wf snds st \<longleftrightarrow>
     wf_sounds snds \<and> wf_transport st \<and> int (length (voices st)) = N_VOICES \<and>
     (\<forall>v \<in> set (voices st). wf_voice snds v)"

definition wf_machine :: "Sounds list \<Rightarrow> machine \<Rightarrow> bool" where
  "wf_machine snds m \<longleftrightarrow>
     wf snds (seq m) \<and> int (length (buffer m)) = N_BUFFERS \<and>
     (\<forall>row \<in> set (buffer m). int (length row) = BUFFER_SIZE) \<and>
     0 \<le> buffer_to_fill m \<and> buffer_to_fill m < N_BUFFERS"

subsection \<open>A small sample bank for examples\<close>

text \<open>
  An entry of \<open>sounds[]\<close> is initialised as \<open>{drum_x, sizeof(drum_x)/sizeof(int16_t)}\<close>:
  the array and its true length.
\<close>

definition sound_of :: "16 word list \<Rightarrow> Sounds" where
  "sound_of xs = \<lparr>samples = xs, len = length xs\<rparr>"

text \<open>
  Five short waveforms standing for kick, clap, snare, hihat and perc. They are used
  only to instantiate the bank parameter in closed examples.
\<close>

definition demo_sounds :: "Sounds list" where
  "demo_sounds =
    [sound_of [0, 1000, - 1000],
     sound_of [5, 2000],
     sound_of [0, 3000, 0],
     sound_of [- 3, 500],
     sound_of [0, 250, 125, 0]]"

text \<open>
  The same five waveforms with every first amplitude 0: on this bank a voice at cursor 0
  reads silence.
\<close>

definition zero_start_sounds :: "Sounds list" where
  "zero_start_sounds =
    [sound_of [0, 1000, - 1000],
     sound_of [0, 2000],
     sound_of [0, 3000, 0],
     sound_of [0, 500],
     sound_of [0, 250, 125, 0]]"

text \<open>
  A tone for closed examples that need one: the constant 15000, which is the value of the
  C expression wherever \<open>sin(arg)\<close> is 0, as it is at \<open>index1 = 0\<close>.
\<close>

definition dc_tone :: "int \<Rightarrow> 16 word" where
  "dc_tone i = 15000"

section \<open>Auxiliary facts\<close>

subsection \<open>Array reads\<close>

lemma rd_Some_iff: "rd xs i = Some x \<longleftrightarrow> 0 \<le> i \<and> i < int (length xs) \<and> x = xs ! nat i"
  by (auto simp: rd_def)

lemma rd_in_range: "0 \<le> i \<Longrightarrow> i < int (length xs) \<Longrightarrow> rd xs i = Some (xs ! nat i)"
  by (simp add: rd_def)

subsection \<open>The mixing loop\<close>

lemma mix_loop_silent:
  "\<forall>j<length as. as ! j = 0 \<Longrightarrow> mix_loop vs as out = out"
proof (induction vs as out rule: mix_loop.induct)
  case (1 v vs a as out0 out1)
  have "a = 0" using "1.prems" by (metis length_Cons nth_Cons_0 zero_less_Suc)
  moreover have "\<forall>j<length as. as ! j = 0" using "1.prems" by force
  ultimately show ?case using "1.IH" by simp
qed simp_all

lemma mix_loop_single:
  "length as = length vs \<Longrightarrow> i < length vs \<Longrightarrow> \<forall>j<length vs. j \<noteq> i \<longrightarrow> as ! j = 0 \<Longrightarrow>
   mix_loop vs as (l, r) =
     (l + (emph (vs ! i) + volume (vs ! i)) * (as ! i) * pan (vs ! i),
      r + (emph (vs ! i) + volume (vs ! i)) * (as ! i) * (32 - pan (vs ! i)))"
proof (induction vs arbitrary: as i l r)
  case Nil
  then show ?case by simp
next
  case (Cons v vs)
  from Cons.prems(1) obtain a as' where as: "as = a # as'" and len: "length as' = length vs"
    by (cases as) auto
  show ?case
  proof (cases i)
    case 0
    have "\<forall>j<length as'. as' ! j = 0"
    proof (intro allI impI)
      fix j assume "j < length as'"
      then have "Suc j < length (v # vs)" using len by simp
      then have "as ! Suc j = 0" using Cons.prems(3) 0 by blast
      then show "as' ! j = 0" using as by simp
    qed
    then show ?thesis using 0 as by (simp add: mix_loop_silent Let_def)
  next
    case (Suc k)
    have a0: "a = 0" using Cons.prems(3)[rule_format, of 0] Suc as by simp
    have rest: "\<forall>j<length vs. j \<noteq> k \<longrightarrow> as' ! j = 0"
    proof (intro allI impI)
      fix j assume "j < length vs" "j \<noteq> k"
      then have "as ! Suc j = 0" using Cons.prems(3)[rule_format, of "Suc j"] Suc by simp
      then show "as' ! j = 0" using as by simp
    qed
    have k: "k < length vs" using Cons.prems(2) Suc by simp
    show ?thesis using Cons.IH[OF len k rest] Suc a0 as by (simp add: Let_def)
  qed
qed

lemma mix_loop_total:
  "fst (mix_loop vs as (l, r)) + snd (mix_loop vs as (l, r)) =
     l + r + 32 * (\<Sum>(v, a)\<leftarrow>zip vs as. (emph v + volume v) * a)"
  by (induction vs as "(l, r)" arbitrary: l r rule: mix_loop.induct) (simp_all add: algebra_simps Let_def)

subsection \<open>The pattern tables\<close>

lemma bars_values: "\<forall>k \<in> set bars. k = 0 \<or> k = 1 \<or> k = 2"
  by (simp add: bars_def)

lemma length_bars: "int (length bars) = LOOP_BARS"
  by (simp add: bars_def LOOP_BARS_def)

lemma pattern_dims:
  "p = pattern0 \<or> p = pattern1 \<or> p = pattern2 \<Longrightarrow>
   int (length (pattern p)) = N_VOICES \<and> (\<forall>r \<in> set (pattern p). int (length r) = BAR_LEN)"
  by (auto simp: pattern0_def pattern1_def pattern2_def N_VOICES_def BAR_LEN_def)

lemma rd_patterns:
  "k = 0 \<or> k = 1 \<or> k = 2 \<Longrightarrow>
   \<exists>p. rd patterns k = Some (Some p) \<and> (p = pattern0 \<or> p = pattern1 \<or> p = pattern2)"
  by (auto simp: rd_def patterns_def)

lemma cell_defined:
  assumes "wf_transport st" and "0 \<le> i" and "i < N_VOICES"
  shows "\<exists>c. cell st i = Some c"
proof -
  from assms(1) have b: "0 \<le> bar st" "bar st < int (length bars)"
    and t: "0 \<le> tickOfBar st" "tickOfBar st < BAR_LEN"
    by (simp_all add: wf_transport_def length_bars)
  from b have rb: "rd bars (bar st) = Some (bars ! nat (bar st))" by (rule rd_in_range)
  have "bars ! nat (bar st) \<in> set bars" using b by simp
  with bars_values have "bars ! nat (bar st) = 0 \<or> bars ! nat (bar st) = 1 \<or> bars ! nat (bar st) = 2"
    by blast
  from rd_patterns[OF this] obtain p where
    rp: "rd patterns (bars ! nat (bar st)) = Some (Some p)"
    and p: "p = pattern0 \<or> p = pattern1 \<or> p = pattern2" by blast
  from pattern_dims[OF p] have np: "int (length (pattern p)) = N_VOICES"
    and rows: "\<forall>r \<in> set (pattern p). int (length r) = BAR_LEN" by simp_all
  have rr: "rd (pattern p) i = Some (pattern p ! nat i)"
    using assms(2,3) np by (simp add: rd_in_range)
  have "pattern p ! nat i \<in> set (pattern p)" using assms(2,3) np by simp
  with rows have "int (length (pattern p ! nat i)) = BAR_LEN" by blast
  with t have "rd (pattern p ! nat i) (tickOfBar st) = Some (pattern p ! nat i ! nat (tickOfBar st))"
    by (simp add: rd_in_range)
  with rb rp rr show ?thesis by (simp add: cell_def)
qed

subsection \<open>The trigger loop\<close>

lemma trigger_loop_defined:
  "\<forall>k<length vs. \<exists>c. cell st (i + int k) = Some c \<Longrightarrow> \<exists>vs'. trigger_loop st i vs = Some vs'"
proof (induction vs arbitrary: i)
  case Nil
  then show ?case by simp
next
  case (Cons v vs)
  from Cons.prems[rule_format, of 0] obtain c where c: "cell st i = Some c" by auto
  have "\<forall>k<length vs. \<exists>c. cell st (i + 1 + int k) = Some c"
  proof (intro allI impI)
    fix k assume "k < length vs"
    then have "\<exists>c. cell st (i + int (Suc k)) = Some c" using Cons.prems by auto
    then show "\<exists>c. cell st (i + 1 + int k) = Some c" by (simp add: add.assoc)
  qed
  from Cons.IH[OF this] obtain vs' where "trigger_loop st (i + 1) vs = Some vs'" by blast
  with c show ?case by simp
qed

lemma trigger_loop_nth:
  "trigger_loop st i vs = Some vs' \<Longrightarrow>
   length vs' = length vs \<and>
   (\<forall>k<length vs. \<exists>c. cell st (i + int k) = Some c \<and> vs' ! k = trigger_voice c (vs ! k))"
proof (induction vs arbitrary: i vs')
  case Nil
  then show ?case by simp
next
  case (Cons v vs)
  from Cons.prems obtain c ws where c: "cell st i = Some c"
    and ws: "trigger_loop st (i + 1) vs = Some ws" and vs': "vs' = trigger_voice c v # ws"
    by (auto simp: bind_eq_Some_conv)
  from Cons.IH[OF ws] have len: "length ws = length vs"
    and nth: "\<forall>k<length vs. \<exists>c. cell st (i + 1 + int k) = Some c \<and> ws ! k = trigger_voice c (vs ! k)"
    by simp_all
  have "\<exists>d. cell st (i + int k) = Some d \<and> vs' ! k = trigger_voice d ((v # vs) ! k)"
    if "k < length (v # vs)" for k
  proof (cases k)
    case 0
    then show ?thesis using c vs' by simp
  next
    case (Suc j)
    then have "j < length vs" using that by simp
    with nth obtain d where "cell st (i + 1 + int j) = Some d" "ws ! j = trigger_voice d (vs ! j)"
      by blast
    then show ?thesis using Suc vs' by (simp add: add.assoc)
  qed
  then show ?case using len vs' by simp
qed

subsection \<open>The playback loop\<close>

lemma wf_voice_bank:
  assumes "wf_sounds snds" and "wf_voice snds v" and "0 \<le> sample v"
  shows "rd snds (sample v) = Some (snds ! nat (sample v))"
    and "len (snds ! nat (sample v)) = length (samples (snds ! nat (sample v)))"
    and "2 \<le> len (snds ! nat (sample v))"
proof -
  have r: "sample v < int (length snds)" using assms(2) by (simp add: wf_voice_def)
  with assms(3) show "rd snds (sample v) = Some (snds ! nat (sample v))" by (simp add: rd_in_range)
  have "snds ! nat (sample v) \<in> set snds" using r assms(3) by simp
  with assms(1) show "len (snds ! nat (sample v)) = length (samples (snds ! nat (sample v)))"
    and "2 \<le> len (snds ! nat (sample v))" by (auto simp: wf_sounds_def)
qed

lemma trigger_voice_static [simp]:
  "sample (trigger_voice c v) = sample v"
  "pan (trigger_voice c v) = pan v"
  "volume (trigger_voice c v) = volume v"
  by (simp_all add: trigger_voice_def)

lemma trigger_voice_wf:
  assumes "wf_sounds snds" and "wf_voice snds v"
  shows "wf_voice snds (trigger_voice c v)"
proof (cases "0 \<le> sample v")
  case True
  from wf_voice_bank(3)[OF assms True] show ?thesis
    using assms(2) by (simp add: wf_voice_def trigger_voice_def)
next
  case False
  then show ?thesis using assms(2) by (simp add: wf_voice_def trigger_voice_def)
qed

text \<open>What the playback loop does to the cursor of a voice with an assigned sample.\<close>

lemma play_voice_wf:
  assumes "wf_sounds snds" and "wf_voice snds v"
  shows "\<exists>a v'. play_voice snds v = Some (a, v') \<and> wf_voice snds v' \<and>
           sample v' = sample v \<and> pan v' = pan v \<and> volume v' = volume v \<and> emph v' = emph v"
proof (cases "0 \<le> sample v")
  case True
  note b = wf_voice_bank[OF assms True]
  have p: "0 \<le> pos v" "pos v < int (length (samples (snds ! nat (sample v))))"
    using assms(2) True b(2) by (simp_all add: wf_voice_def)
  then have "rd (samples (snds ! nat (sample v))) (pos v)
      = Some (samples (snds ! nat (sample v)) ! nat (pos v))" by (simp add: rd_in_range)
  then show ?thesis using True b p assms(2)
    by (auto simp: play_voice_def Let_def wf_voice_def)
next
  case False
  then show ?thesis using assms(2) by (simp add: play_voice_def wf_voice_def)
qed

lemma play_voice_cursor:
  assumes "play_voice snds v = Some (a, v')" and "0 \<le> sample v" and "wf_sounds snds"
    and "wf_voice snds v"
  shows "a = sint (samples (snds ! nat (sample v)) ! nat (pos v))"
    and "pos v' = (if pos v = 0 then 0
                   else if int (len (snds ! nat (sample v))) \<le> pos v + 1 then 0
                   else pos v + 1)"
    and "emph v' = emph v"
proof -
  note b = wf_voice_bank[OF assms(3,4,2)]
  have p: "0 \<le> pos v" "pos v < int (length (samples (snds ! nat (sample v))))"
    using assms(2,4) b(2) by (simp_all add: wf_voice_def)
  then have r: "rd (samples (snds ! nat (sample v))) (pos v)
      = Some (samples (snds ! nat (sample v)) ! nat (pos v))" by (simp add: rd_in_range)
  from assms(1) show "a = sint (samples (snds ! nat (sample v)) ! nat (pos v))"
    using assms(2) b(1) r by (auto simp: play_voice_def)
  from assms(1) show "pos v' = (if pos v = 0 then 0
                   else if int (len (snds ! nat (sample v))) \<le> pos v + 1 then 0
                   else pos v + 1)"
    using assms(2) b(1) r by (auto simp: play_voice_def Let_def)
  from assms(1) show "emph v' = emph v"
    using assms(2) b(1) r by (auto simp: play_voice_def Let_def)
qed

lemma play_loop_nth:
  "play_loop snds vs = Some (as, vs') \<Longrightarrow>
   length as = length vs \<and> length vs' = length vs \<and>
   (\<forall>k<length vs. play_voice snds (vs ! k) = Some (as ! k, vs' ! k))"
proof (induction vs arbitrary: as vs')
  case Nil
  then show ?case by simp
next
  case (Cons v vs)
  from Cons.prems obtain a w bs ws where a: "play_voice snds v = Some (a, w)"
    and r: "play_loop snds vs = Some (bs, ws)" and e: "as = a # bs" "vs' = w # ws"
    by (auto simp: bind_eq_Some_conv)
  from Cons.IH[OF r] have ih: "length bs = length vs" "length ws = length vs"
    "\<forall>k<length vs. play_voice snds (vs ! k) = Some (bs ! k, ws ! k)" by simp_all
  have "play_voice snds ((v # vs) ! k) = Some (as ! k, vs' ! k)" if "k < length (v # vs)" for k
    using that a e ih(3) by (cases k) simp_all
  then show ?case using ih e by simp
qed

lemma play_loop_defined:
  "\<forall>v \<in> set vs. \<exists>a v'. play_voice snds v = Some (a, v') \<Longrightarrow>
   \<exists>as vs'. play_loop snds vs = Some (as, vs')"
proof (induction vs)
  case Nil
  then show ?case by simp
next
  case (Cons v vs)
  then obtain a w where "play_voice snds v = Some (a, w)" by auto
  moreover from Cons obtain bs ws where "play_loop snds vs = Some (bs, ws)" by auto
  ultimately show ?case by simp
qed

subsection \<open>One call of the frame generator\<close>

lemma advance_frame [simp]:
  "voices (advance st) = voices st"
  "index1 (advance st) = index1 st"
  "samplesPerBeat (advance st) = samplesPerBeat st"
  "samplesPerTick (advance st) = samplesPerTick st"
  by (simp_all add: advance_def Let_def)

lemma advance_voices_irrelevant:
  "bar (advance (st\<lparr>voices := vs\<rparr>)) = bar (advance st)"
  "tickOfBar (advance (st\<lparr>voices := vs\<rparr>)) = tickOfBar (advance st)"
  "sampleOfTick (advance (st\<lparr>voices := vs\<rparr>)) = sampleOfTick (advance st)"
  by (simp_all add: advance_def Let_def)

lemma advance_wf_transport: "wf_transport st \<Longrightarrow> wf_transport (advance st)"
  by (auto simp: wf_transport_def advance_def Let_def)

lemma trigger_cases:
  assumes "trigger st = Some st'"
  obtains "sampleOfTick st \<noteq> 0" and "st' = st"
  | vs where "sampleOfTick st = 0" and "trigger_loop st 0 (voices st) = Some vs"
      and "st' = st\<lparr>voices := vs\<rparr>"
  using assms by (auto simp: trigger_def split: if_splits)

lemma synth_parts:
  assumes "synth snds st = Some (out, st2)"
  obtains st1 as where "trigger st = Some st1"
    and "play_loop snds (voices st1) = Some (as, voices st2)"
    and "st2 = st1\<lparr>voices := voices st2\<rparr>" and "out = mix (voices st2) as"
  using assms by (auto simp: synth_def bind_eq_Some_conv)

lemma generate_sample_parts:
  assumes "generate_sample tone snds st = Some (w, st')"
  obtains out st2 where "synth snds st = Some (out, st2)"
    and "(w, st') = test_tone tone (advance st2)"
  using assms by (auto simp: generate_sample_def bind_eq_Some_conv)

lemma trigger_frame:
  assumes "trigger st = Some st'"
  shows "st' = st\<lparr>voices := voices st'\<rparr>"
  using assms by (rule trigger_cases) simp_all

lemma synth_frame:
  assumes "synth snds st = Some (out, st2)"
  shows "st2 = st\<lparr>voices := voices st2\<rparr>"
proof -
  from assms obtain st1 as where t: "trigger st = Some st1"
    and s: "st2 = st1\<lparr>voices := voices st2\<rparr>" by (rule synth_parts)
  from trigger_frame[OF t] have "st1 = st\<lparr>voices := voices st1\<rparr>" .
  then have "st1\<lparr>voices := voices st2\<rparr> = st\<lparr>voices := voices st2\<rparr>"
    by (metis sequencer.update_convs(6) sequencer.surjective sequencer.select_convs)
  with s show ?thesis by simp
qed

lemma generate_sample_frame:
  assumes "generate_sample tone snds st = Some (w, st')"
  shows "samplesPerBeat st' = samplesPerBeat st" and "samplesPerTick st' = samplesPerTick st"
    and "bar st' = bar (advance st)" and "tickOfBar st' = tickOfBar (advance st)"
    and "sampleOfTick st' = sampleOfTick (advance st)"
    and "index1 st' = (if 400 \<le> index1 st then 0 else index1 st) + 1"
    and "w = smpl_d1 (tone (if 400 \<le> index1 st then 0 else index1 st))
                     (tone (if 400 \<le> index1 st then 0 else index1 st))"
proof -
  from assms obtain out st2 where s: "synth snds st = Some (out, st2)"
    and t: "(w, st') = test_tone tone (advance st2)" by (rule generate_sample_parts)
  from synth_frame[OF s] obtain vs where st2: "st2 = st\<lparr>voices := vs\<rparr>" by blast
  from t have w: "w = fst (test_tone tone (advance st2))"
    and st': "st' = snd (test_tone tone (advance st2))" by (metis fst_conv, metis snd_conv)
  show "samplesPerBeat st' = samplesPerBeat st" and "samplesPerTick st' = samplesPerTick st"
    using st' st2 by (simp_all add: test_tone_def Let_def)
  show "bar st' = bar (advance st)" and "tickOfBar st' = tickOfBar (advance st)"
    and "sampleOfTick st' = sampleOfTick (advance st)"
    using st' st2 by (simp_all add: test_tone_def Let_def advance_voices_irrelevant)
  show "index1 st' = (if 400 \<le> index1 st then 0 else index1 st) + 1"
    using st' st2 by (simp add: test_tone_def Let_def)
  show "w = smpl_d1 (tone (if 400 \<le> index1 st then 0 else index1 st))
                     (tone (if 400 \<le> index1 st then 0 else index1 st))"
    using w st2 by (simp add: test_tone_def Let_def)
qed

text \<open>The voices after a call: each one is triggered (at the first frame of a tick) and
  then played, on its own.\<close>

lemma generate_sample_voice:
  assumes "generate_sample tone snds st = Some (w, st')" and "k < length (voices st)"
  shows "length (voices st') = length (voices st)"
    and "\<exists>v1 a. play_voice snds v1 = Some (a, voices st' ! k) \<and>
           (if sampleOfTick st = 0
            then \<exists>c. cell st (int k) = Some c \<and> v1 = trigger_voice c (voices st ! k)
            else v1 = voices st ! k)"
proof -
  from assms(1) obtain out st2 where s: "synth snds st = Some (out, st2)"
    and t: "(w, st') = test_tone tone (advance st2)" by (rule generate_sample_parts)
  from t have "st' = snd (test_tone tone (advance st2))" by (metis snd_conv)
  then have v': "voices st' = voices st2" by (simp add: test_tone_def Let_def)
  from s obtain st1 as where tr: "trigger st = Some st1"
    and pl: "play_loop snds (voices st1) = Some (as, voices st2)" by (rule synth_parts)
  note p = play_loop_nth[OF pl]
  from tr have l1: "length (voices st1) = length (voices st)"
    and v1: "if sampleOfTick st = 0
             then \<exists>c. cell st (int k) = Some c \<and> voices st1 ! k = trigger_voice c (voices st ! k)
             else voices st1 ! k = voices st ! k"
  proof (atomize (full), cases rule: trigger_cases)
    case 1
    then show "length (voices st1) = length (voices st) \<and>
      (if sampleOfTick st = 0
       then \<exists>c. cell st (int k) = Some c \<and> voices st1 ! k = trigger_voice c (voices st ! k)
       else voices st1 ! k = voices st ! k)" by simp
  next
    case (2 vs)
    from trigger_loop_nth[OF 2(2)] assms(2) 2(1,3)
    show "length (voices st1) = length (voices st) \<and>
      (if sampleOfTick st = 0
       then \<exists>c. cell st (int k) = Some c \<and> voices st1 ! k = trigger_voice c (voices st ! k)
       else voices st1 ! k = voices st ! k)" by simp
  qed
  show "length (voices st') = length (voices st)" using v' p l1 by simp
  have "play_voice snds (voices st1 ! k) = Some (as ! k, voices st' ! k)"
    using p assms(2) l1 v' by simp
  with v1 show "\<exists>v1 a. play_voice snds v1 = Some (a, voices st' ! k) \<and>
           (if sampleOfTick st = 0
            then \<exists>c. cell st (int k) = Some c \<and> v1 = trigger_voice c (voices st ! k)
            else v1 = voices st ! k)"
    by (cases "sampleOfTick st = 0") auto
qed

lemma trigger_wf:
  assumes "wf snds st"
  shows "\<exists>st1. trigger st = Some st1 \<and> wf snds st1"
proof (cases "sampleOfTick st = 0")
  case False
  then show ?thesis using assms by (simp add: trigger_def)
next
  case True
  have n: "int (length (voices st)) = N_VOICES" and tr: "wf_transport st"
    and ws: "wf_sounds snds" and wv: "\<forall>v \<in> set (voices st). wf_voice snds v"
    using assms by (simp_all add: wf_def)
  have "\<forall>k<length (voices st). \<exists>c. cell st (0 + int k) = Some c"
    using cell_defined[OF tr] n by simp
  from trigger_loop_defined[OF this] obtain vs where vs: "trigger_loop st 0 (voices st) = Some vs"
    by blast
  note nth = trigger_loop_nth[OF vs]
  have "wf_voice snds v" if "v \<in> set vs" for v
  proof -
    from that obtain k where k: "k < length vs" "v = vs ! k" by (auto simp: in_set_conv_nth)
    with nth obtain c where "v = trigger_voice c (voices st ! k)" by auto
    moreover have "wf_voice snds (voices st ! k)" using wv k nth by simp
    ultimately show ?thesis using trigger_voice_wf[OF ws] by simp
  qed
  then have "wf snds (st\<lparr>voices := vs\<rparr>)"
    using assms nth by (simp add: wf_def wf_transport_def)
  then show ?thesis using True vs by (simp add: trigger_def)
qed

lemma generate_sample_wf:
  assumes "wf snds st"
  shows "\<exists>w st'. generate_sample tone snds st = Some (w, st') \<and> wf snds st'"
proof -
  from trigger_wf[OF assms] obtain st1 where tr: "trigger st = Some st1" and w1: "wf snds st1"
    by blast
  have ws: "wf_sounds snds" and wv: "\<forall>v \<in> set (voices st1). wf_voice snds v"
    and n: "int (length (voices st1)) = N_VOICES" and wt: "wf_transport st1"
    using w1 by (simp_all add: wf_def)
  have "\<forall>v \<in> set (voices st1). \<exists>a v'. play_voice snds v = Some (a, v')"
    using play_voice_wf[OF ws] wv by blast
  from play_loop_defined[OF this] obtain as vs where pl: "play_loop snds (voices st1) = Some (as, vs)"
    by blast
  note p = play_loop_nth[OF pl]
  have wvs: "wf_voice snds v" if "v \<in> set vs" for v
  proof -
    from that obtain k where k: "k < length vs" "v = vs ! k" by (auto simp: in_set_conv_nth)
    then have "play_voice snds (voices st1 ! k) = Some (as ! k, v)" using p by simp
    moreover have "wf_voice snds (voices st1 ! k)" using wv k p by simp
    ultimately show ?thesis using play_voice_wf[OF ws, of "voices st1 ! k"] by auto
  qed
  let ?st2 = "st1\<lparr>voices := vs\<rparr>"
  have s: "synth snds st = Some (mix vs as, ?st2)" using tr pl by (simp add: synth_def)
  have "wf_transport ?st2" using wt by (simp add: wf_transport_def)
  then have "wf_transport (advance ?st2)" by (rule advance_wf_transport)
  then have "wf_transport (snd (test_tone tone (advance ?st2)))"
    by (simp add: test_tone_def Let_def wf_transport_def)
  moreover have "voices (snd (test_tone tone (advance ?st2))) = vs"
    by (simp add: test_tone_def Let_def)
  ultimately have "wf snds (snd (test_tone tone (advance ?st2)))"
    using ws wvs n p by (simp add: wf_def)
  moreover have "generate_sample tone snds st = Some (test_tone tone (advance ?st2))"
    using s by (simp add: generate_sample_def)
  ultimately show ?thesis by (metis prod.collapse)
qed

subsection \<open>Consecutive calls\<close>

lemma run_Suc:
  "generate_sample tone snds st = Some (w, st') \<Longrightarrow> run tone snds (Suc n) st = run tone snds n st'"
  by simp

lemma run_add:
  "run tone snds (m + n) st = Option.bind (run tone snds m st) (run tone snds n)"
proof (induction m arbitrary: st)
  case 0
  then show ?case by simp
next
  case (Suc m)
  show ?case
  proof (cases "generate_sample tone snds st")
    case None
    then show ?thesis by simp
  next
    case (Some r)
    then obtain w st' where "generate_sample tone snds st = Some (w, st')" by (cases r) simp
    then show ?thesis using Suc.IH[of st'] by simp
  qed
qed

lemma run_then:
  "run tone snds m st = Some st1 \<Longrightarrow> run tone snds n st1 = Some st2 \<Longrightarrow>
   run tone snds (m + n) st = Some st2"
  by (simp add: run_add)

lemma run_split:
  assumes "run tone snds (m + n) st = Some st2"
  obtains st1 where "run tone snds m st = Some st1" and "run tone snds n st1 = Some st2"
  using assms by (auto simp: run_add bind_eq_Some_conv)

lemma run_one:
  "run tone snds 1 st = Some st' \<longleftrightarrow> (\<exists>w. generate_sample tone snds st = Some (w, st'))"
  by (auto simp: bind_eq_Some_conv)

lemma run_wf:
  "wf snds st \<Longrightarrow> \<exists>st'. run tone snds n st = Some st' \<and> wf snds st'"
proof (induction n arbitrary: st)
  case 0
  then show ?case by simp
next
  case (Suc n)
  from generate_sample_wf[OF Suc.prems] obtain w st1
    where g: "generate_sample tone snds st = Some (w, st1)" and w1: "wf snds st1" by blast
  from Suc.IH[OF w1] show ?case using g by simp
qed

lemma run_timing:
  "run tone snds n st = Some st' \<Longrightarrow>
   samplesPerBeat st' = samplesPerBeat st \<and> samplesPerTick st' = samplesPerTick st"
proof (induction n arbitrary: st)
  case 0
  then show ?case by simp
next
  case (Suc n)
  from Suc.prems obtain w st1 where g: "generate_sample tone snds st = Some (w, st1)"
    and r: "run tone snds n st1 = Some st'" by (auto simp: bind_eq_Some_conv)
  from Suc.IH[OF r] generate_sample_frame(1,2)[OF g] show ?case by simp
qed

subsection \<open>The transport counters\<close>

lemma advance_within_tick:
  "sampleOfTick st + 1 \<noteq> samplesPerTick st \<Longrightarrow>
   bar (advance st) = bar st \<and> tickOfBar (advance st) = tickOfBar st \<and>
   sampleOfTick (advance st) = sampleOfTick st + 1"
  by (simp add: advance_def Let_def)

lemma advance_end_of_tick:
  "sampleOfTick st + 1 = samplesPerTick st \<Longrightarrow>
   sampleOfTick (advance st) = 0 \<and>
   (if tickOfBar st + 1 = BAR_LEN
    then tickOfBar (advance st) = 0 \<and>
         bar (advance st) = (if bar st + 1 = LOOP_BARS then 0 else bar st + 1)
    else tickOfBar (advance st) = tickOfBar st + 1 \<and> bar (advance st) = bar st)"
  by (simp add: advance_def Let_def)

lemma run_within_tick:
  assumes "wf snds st" and "sampleOfTick st + int n < samplesPerTick st"
  shows "\<exists>st'. run tone snds n st = Some st' \<and> wf snds st' \<and> bar st' = bar st \<and>
           tickOfBar st' = tickOfBar st \<and> sampleOfTick st' = sampleOfTick st + int n"
  using assms
proof (induction n arbitrary: st)
  case 0
  then show ?case by simp
next
  case (Suc n)
  from generate_sample_wf[OF Suc.prems(1)] obtain w st1
    where g: "generate_sample tone snds st = Some (w, st1)" and w1: "wf snds st1" by blast
  note f = generate_sample_frame[OF g]
  have "sampleOfTick st + 1 \<noteq> samplesPerTick st" using Suc.prems(2) by simp
  note a = advance_within_tick[OF this]
  have "sampleOfTick st1 + int n < samplesPerTick st1" using Suc.prems(2) f a by simp
  from Suc.IH[OF w1 this] obtain st' where "run tone snds n st1 = Some st'" "wf snds st'"
    "bar st' = bar st1" "tickOfBar st' = tickOfBar st1"
    "sampleOfTick st' = sampleOfTick st1 + int n" by blast
  then show ?case using g f a by simp
qed

lemma run_tick:
  assumes "wf snds st" and "sampleOfTick st = 0"
  shows "\<exists>st'. run tone snds (nat (samplesPerTick st)) st = Some st' \<and> wf snds st' \<and>
           sampleOfTick st' = 0 \<and>
           (if tickOfBar st + 1 = BAR_LEN
            then tickOfBar st' = 0 \<and> bar st' = (if bar st + 1 = LOOP_BARS then 0 else bar st + 1)
            else tickOfBar st' = tickOfBar st + 1 \<and> bar st' = bar st)"
proof -
  have pos: "0 < samplesPerTick st" using assms by (simp add: wf_def wf_transport_def)
  define n where "n = nat (samplesPerTick st - 1)"
  have n: "int n = samplesPerTick st - 1" "nat (samplesPerTick st) = n + 1"
    using pos by (simp_all add: n_def)
  have "sampleOfTick st + int n < samplesPerTick st" using assms(2) n by simp
  from run_within_tick[OF assms(1) this] obtain st1 where r1: "run tone snds n st = Some st1"
    and w1: "wf snds st1" and t1: "bar st1 = bar st" "tickOfBar st1 = tickOfBar st"
    "sampleOfTick st1 = sampleOfTick st + int n" by blast
  from generate_sample_wf[OF w1] obtain w st' where g: "generate_sample tone snds st1 = Some (w, st')"
    and w': "wf snds st'" by blast
  note f = generate_sample_frame[OF g]
  from run_timing[OF r1] have "samplesPerTick st1 = samplesPerTick st" by simp
  then have "sampleOfTick st1 + 1 = samplesPerTick st1" using t1 assms(2) n by simp
  note a = advance_end_of_tick[OF this]
  have "run tone snds 1 st1 = Some st'" using g by (simp add: run_one)
  from run_then[OF r1 this] have "run tone snds (nat (samplesPerTick st)) st = Some st'"
    using n by simp
  then show ?thesis using w' f a t1 by (auto split: if_splits)
qed

lemma run_ticks:
  assumes "wf snds st" and "sampleOfTick st = 0" and "tickOfBar st + int k < BAR_LEN"
  shows "\<exists>st'. run tone snds (k * nat (samplesPerTick st)) st = Some st' \<and> wf snds st' \<and>
           sampleOfTick st' = 0 \<and> tickOfBar st' = tickOfBar st + int k \<and> bar st' = bar st"
  using assms
proof (induction k arbitrary: st)
  case 0
  then show ?case by simp
next
  case (Suc k)
  have ne: "tickOfBar st + 1 \<noteq> BAR_LEN" using Suc.prems(3) by simp
  from run_tick[OF Suc.prems(1,2)] obtain st1
    where r1: "run tone snds (nat (samplesPerTick st)) st = Some st1" and w1: "wf snds st1"
      and s1: "sampleOfTick st1 = 0" and t1: "tickOfBar st1 = tickOfBar st + 1"
      and b1: "bar st1 = bar st" using ne by auto
  have spt: "samplesPerTick st1 = samplesPerTick st" using run_timing[OF r1] by simp
  have "tickOfBar st1 + int k < BAR_LEN" using Suc.prems(3) t1 by simp
  from Suc.IH[OF w1 s1 this] obtain st' where
    r2: "run tone snds (k * nat (samplesPerTick st)) st1 = Some st'" and w': "wf snds st'"
    and e: "sampleOfTick st' = 0" "tickOfBar st' = tickOfBar st1 + int k" "bar st' = bar st1"
    using spt by auto
  from run_then[OF r1 r2] have "run tone snds (Suc k * nat (samplesPerTick st)) st = Some st'"
    by simp
  then show ?case using w' e t1 b1 by simp
qed

lemma run_bar:
  assumes "wf snds st" and "sampleOfTick st = 0" and "tickOfBar st = 0"
  shows "\<exists>st'. run tone snds (nat BAR_LEN * nat (samplesPerTick st)) st = Some st' \<and>
           wf snds st' \<and> sampleOfTick st' = 0 \<and> tickOfBar st' = 0 \<and>
           bar st' = (if bar st + 1 = LOOP_BARS then 0 else bar st + 1)"
proof -
  have "tickOfBar st + int 71 < BAR_LEN" using assms(3) by (simp add: BAR_LEN_def)
  from run_ticks[OF assms(1,2) this] obtain st1
    where r1: "run tone snds (71 * nat (samplesPerTick st)) st = Some st1" and w1: "wf snds st1"
      and s1: "sampleOfTick st1 = 0" and t1: "tickOfBar st1 = 71" and b1: "bar st1 = bar st"
    using assms(3) by auto
  have spt: "samplesPerTick st1 = samplesPerTick st" using run_timing[OF r1] by simp
  have last: "tickOfBar st1 + 1 = BAR_LEN" using t1 by (simp add: BAR_LEN_def)
  from run_tick[OF w1 s1] obtain st'
    where r2: "run tone snds (nat (samplesPerTick st)) st1 = Some st'" and w': "wf snds st'"
      and e: "sampleOfTick st' = 0" "tickOfBar st' = 0"
        "bar st' = (if bar st1 + 1 = LOOP_BARS then 0 else bar st1 + 1)"
    using last spt by auto
  have "71 * nat (samplesPerTick st) + nat (samplesPerTick st)
      = nat BAR_LEN * nat (samplesPerTick st)" by (simp add: BAR_LEN_def)
  with run_then[OF r1 r2] have "run tone snds (nat BAR_LEN * nat (samplesPerTick st)) st = Some st'"
    by simp
  then show ?thesis using w' e b1 by simp
qed

lemma run_bars:
  assumes "wf snds st" and "sampleOfTick st = 0" and "tickOfBar st = 0"
    and "bar st + int k < LOOP_BARS"
  shows "\<exists>st'. run tone snds (k * (nat BAR_LEN * nat (samplesPerTick st))) st = Some st' \<and>
           wf snds st' \<and> sampleOfTick st' = 0 \<and> tickOfBar st' = 0 \<and> bar st' = bar st + int k"
  using assms
proof (induction k arbitrary: st)
  case 0
  then show ?case by simp
next
  case (Suc k)
  have ne: "bar st + 1 \<noteq> LOOP_BARS" using Suc.prems(4) by simp
  from run_bar[OF Suc.prems(1,2,3)] obtain st1
    where r1: "run tone snds (nat BAR_LEN * nat (samplesPerTick st)) st = Some st1"
      and w1: "wf snds st1" and s1: "sampleOfTick st1 = 0" and t1: "tickOfBar st1 = 0"
      and b1: "bar st1 = bar st + 1" using ne by auto
  have spt: "samplesPerTick st1 = samplesPerTick st" using run_timing[OF r1] by simp
  have "bar st1 + int k < LOOP_BARS" using Suc.prems(4) b1 by simp
  from Suc.IH[OF w1 s1 t1 this] obtain st' where
    r2: "run tone snds (k * (nat BAR_LEN * nat (samplesPerTick st))) st1 = Some st'"
    and w': "wf snds st'"
    and e: "sampleOfTick st' = 0" "tickOfBar st' = 0" "bar st' = bar st1 + int k"
    using spt by auto
  from run_then[OF r1 r2]
  have "run tone snds (Suc k * (nat BAR_LEN * nat (samplesPerTick st))) st = Some st'" by simp
  then show ?case using w' e b1 by simp
qed

lemma run_arrangement:
  assumes "wf snds st" and "sampleOfTick st = 0" and "tickOfBar st = 0" and "bar st = 0"
  shows "\<exists>st'. run tone snds (nat LOOP_BARS * (nat BAR_LEN * nat (samplesPerTick st))) st = Some st' \<and>
           wf snds st' \<and> sampleOfTick st' = 0 \<and> tickOfBar st' = 0 \<and> bar st' = 0"
proof -
  have "bar st + int 9 < LOOP_BARS" using assms(4) by (simp add: LOOP_BARS_def)
  from run_bars[OF assms(1,2,3) this] obtain st1
    where r1: "run tone snds (9 * (nat BAR_LEN * nat (samplesPerTick st))) st = Some st1"
      and w1: "wf snds st1" and s1: "sampleOfTick st1 = 0" and t1: "tickOfBar st1 = 0"
      and b1: "bar st1 = 9" using assms(4) by auto
  have spt: "samplesPerTick st1 = samplesPerTick st" using run_timing[OF r1] by simp
  have last: "bar st1 + 1 = LOOP_BARS" using b1 by (simp add: LOOP_BARS_def)
  from run_bar[OF w1 s1 t1] obtain st'
    where r2: "run tone snds (nat BAR_LEN * nat (samplesPerTick st)) st1 = Some st'"
      and w': "wf snds st'" and e: "sampleOfTick st' = 0" "tickOfBar st' = 0" "bar st' = 0"
    using last spt by auto
  have "9 * (nat BAR_LEN * nat (samplesPerTick st)) + nat BAR_LEN * nat (samplesPerTick st)
      = nat LOOP_BARS * (nat BAR_LEN * nat (samplesPerTick st))" by (simp add: LOOP_BARS_def)
  with run_then[OF r1 r2]
  have "run tone snds (nat LOOP_BARS * (nat BAR_LEN * nat (samplesPerTick st))) st = Some st'"
    by simp
  then show ?thesis using w' e by simp
qed

subsection \<open>The timing parameters and the initial state\<close>

lemma SAMPLE_RATE_value: "SAMPLE_RATE = 44138"
  unfolding SAMPLE_RATE_def PIO_I2S_CLKDIV_def by code_simp

lemma c_div_nonneg: "0 \<le> a \<Longrightarrow> 0 < b \<Longrightarrow> c_div a b = a div b"
  by (cases "a = 0") (simp_all add: c_div_def)

lemma set_timing_values:
  "samplesPerBeat (set_timing st) = 17085" "samplesPerTick (set_timing st) = 949"
  by (simp_all add: set_timing_def Let_def SAMPLE_RATE_value BPM_def BEATS_PER_BAR_def
      BAR_LEN_def c_div_nonneg)

lemma set_timing_frame [simp]:
  "bar (set_timing st) = bar st" "tickOfBar (set_timing st) = tickOfBar st"
  "sampleOfTick (set_timing st) = sampleOfTick st" "voices (set_timing st) = voices st"
  "index1 (set_timing st) = index1 st"
  by (simp_all add: set_timing_def Let_def)

lemma wf_demo_sounds: "wf_sounds demo_sounds"
  by (simp add: wf_sounds_def demo_sounds_def sound_of_def)

lemma wf_voices_init: "\<forall>v \<in> set voices_init. wf_voice demo_sounds v"
  by (simp add: voices_init_def mk_voice_def wf_voice_def demo_sounds_def sound_of_def)

lemma wf_start: "wf demo_sounds (set_timing seq_init)"
  using wf_demo_sounds wf_voices_init
  by (simp add: wf_def wf_transport_def set_timing_values seq_init_def LOOP_BARS_def BAR_LEN_def
      N_VOICES_def voices_init_def)

subsection \<open>Filling a block\<close>

lemma emitted_0:
  "generate_sample tone snds st = Some (w, st') \<Longrightarrow> emitted tone snds 0 st = Some w"
  by (simp add: emitted_def)

lemma emitted_Suc:
  "generate_sample tone snds st = Some (w, st') \<Longrightarrow>
   emitted tone snds (Suc k) st = emitted tone snds k st'"
  by (simp add: emitted_def)

lemma emitted_add:
  "run tone snds n st = Some st' \<Longrightarrow> emitted tone snds (n + k) st = emitted tone snds k st'"
  by (simp add: emitted_def run_add)

lemma fill_frames_run:
  "fill_frames tone snds is row st = Some (row', st') \<Longrightarrow>
   run tone snds (length is) st = Some st' \<and> length row' = length row"
proof (induction "is" arbitrary: row st)
  case Nil
  then show ?case by simp
next
  case (Cons i "is")
  from Cons.prems obtain w st1 where g: "generate_sample tone snds st = Some (w, st1)"
    and i: "i < length row"
    and r: "fill_frames tone snds is (row[i := w]) st1 = Some (row', st')"
    by (auto simp: bind_eq_Some_conv split: if_splits)
  from Cons.IH[OF r] g show ?case by simp
qed

lemma fill_frames_content:
  "fill_frames tone snds is row st = Some (row', st') \<Longrightarrow> distinct is \<Longrightarrow>
   (\<forall>k<length is. emitted tone snds k st = Some (row' ! (is ! k))) \<and>
   (\<forall>j. j \<notin> set is \<longrightarrow> row' ! j = row ! j)"
proof (induction "is" arbitrary: row st)
  case Nil
  then show ?case by simp
next
  case (Cons i "is")
  from Cons.prems(1) obtain w st1 where g: "generate_sample tone snds st = Some (w, st1)"
    and i: "i < length row"
    and r: "fill_frames tone snds is (row[i := w]) st1 = Some (row', st')"
    by (auto simp: bind_eq_Some_conv split: if_splits)
  from Cons.prems(2) have d: "distinct is" and ni: "i \<notin> set is" by simp_all
  from Cons.IH[OF r d] have ih1: "\<forall>k<length is. emitted tone snds k st1 = Some (row' ! (is ! k))"
    and ih2: "\<forall>j. j \<notin> set is \<longrightarrow> row' ! j = row[i := w] ! j" by simp_all
  have "emitted tone snds k st = Some (row' ! ((i # is) ! k))" if "k < length (i # is)" for k
  proof (cases k)
    case 0
    have "row' ! i = w" using ih2 ni i by simp
    then show ?thesis using 0 emitted_0[OF g] by simp
  next
    case (Suc j)
    then show ?thesis using that ih1 emitted_Suc[OF g] by simp
  qed
  moreover have "row' ! j = row ! j" if "j \<notin> set (i # is)" for j
    using that ih2 by simp
  ultimately show ?case by blast
qed

lemma fill_frames_defined:
  "wf snds st \<Longrightarrow> \<forall>i \<in> set is. i < length row \<Longrightarrow>
   \<exists>row' st'. fill_frames tone snds is row st = Some (row', st') \<and> wf snds st'"
proof (induction "is" arbitrary: row st)
  case Nil
  then show ?case by simp
next
  case (Cons i "is")
  from generate_sample_wf[OF Cons.prems(1)] obtain w st1
    where g: "generate_sample tone snds st = Some (w, st1)" and w1: "wf snds st1" by blast
  have "\<forall>j \<in> set is. j < length (row[i := w])" using Cons.prems(2) by simp
  from Cons.IH[OF w1 this] obtain row' st' where
    "fill_frames tone snds is (row[i := w]) st1 = Some (row', st')" "wf snds st'" by blast
  then show ?case using g Cons.prems(2) by simp
qed

lemma drum_fill_buffer_cases:
  assumes "drum_fill_buffer tone snds m = Some m'"
  obtains "buffer_playing m = buffer_to_fill m" and "m' = m"
  | row' st' where "buffer_playing m \<noteq> buffer_to_fill m"
      and "0 \<le> buffer_to_fill m" and "buffer_to_fill m < int (length (buffer m))"
      and "fill_frames tone snds [0..<nat BUFFER_SIZE] (buffer m ! nat (buffer_to_fill m)) (seq m)
             = Some (row', st')"
      and "m' = m\<lparr>buffer := (buffer m)[nat (buffer_to_fill m) := row'], seq := st',
                   buffer_to_fill := c_mod (buffer_to_fill m + 1) N_BUFFERS\<rparr>"
  using assms
  by (auto simp: drum_fill_buffer_def bind_eq_Some_conv rd_Some_iff split: if_splits)

lemma c_mod_nonneg: "0 \<le> a \<Longrightarrow> 0 < b \<Longrightarrow> c_mod a b = a mod b"
  by (simp add: c_mod_def c_div_nonneg minus_mult_div_eq_mod)

lemma drum_fill_buffer_fills:
  assumes "wf_machine snds m" and "buffer_playing m \<noteq> buffer_to_fill m"
  shows "\<exists>row' st'. drum_fill_buffer tone snds m =
            Some (m\<lparr>buffer := (buffer m)[nat (buffer_to_fill m) := row'], seq := st',
                    buffer_to_fill := (buffer_to_fill m + 1) mod N_BUFFERS\<rparr>) \<and>
           run tone snds (nat BUFFER_SIZE) (seq m) = Some st' \<and> wf snds st' \<and>
           int (length row') = BUFFER_SIZE \<and>
           (\<forall>k<nat BUFFER_SIZE. emitted tone snds k (seq m) = Some (row' ! k))"
proof -
  let ?b = "buffer_to_fill m"
  let ?row = "buffer m ! nat ?b"
  have b: "0 \<le> ?b" "?b < int (length (buffer m))" and w: "wf snds (seq m)"
    and rows: "\<forall>row \<in> set (buffer m). int (length row) = BUFFER_SIZE"
    using assms(1) by (simp_all add: wf_machine_def)
  have "?row \<in> set (buffer m)" using b by simp
  with rows have lr: "int (length ?row) = BUFFER_SIZE" by blast
  then have "\<forall>i \<in> set [0..<nat BUFFER_SIZE]. i < length ?row" by auto
  from fill_frames_defined[OF w this] obtain row' st' where
    f: "fill_frames tone snds [0..<nat BUFFER_SIZE] ?row (seq m) = Some (row', st')"
    and w': "wf snds st'" by blast
  from fill_frames_run[OF f] have r: "run tone snds (nat BUFFER_SIZE) (seq m) = Some st'"
    and l: "length row' = length ?row" by simp_all
  from fill_frames_content[OF f] have
    c: "\<forall>k<nat BUFFER_SIZE. emitted tone snds k (seq m) = Some (row' ! k)" by simp
  have "c_mod (?b + 1) N_BUFFERS = (?b + 1) mod N_BUFFERS"
    using b by (simp add: c_mod_nonneg N_BUFFERS_def)
  then have "drum_fill_buffer tone snds m =
            Some (m\<lparr>buffer := (buffer m)[nat ?b := row'], seq := st',
                    buffer_to_fill := (?b + 1) mod N_BUFFERS\<rparr>)"
    using assms(2) b f by (simp add: drum_fill_buffer_def rd_in_range)
  with r w' l lr c show ?thesis by auto
qed

subsection \<open>Priming\<close>

lemma drum_fill_buffer_timing:
  assumes "drum_fill_buffer tone snds m = Some m'"
  shows "samplesPerBeat (seq m') = samplesPerBeat (seq m) \<and>
         samplesPerTick (seq m') = samplesPerTick (seq m)"
  using assms
proof (cases rule: drum_fill_buffer_cases)
  case 1
  then show ?thesis by simp
next
  case (2 row' st')
  from fill_frames_run[OF 2(4)] have "run tone snds (length [0..<nat BUFFER_SIZE]) (seq m) = Some st'"
    by simp
  from run_timing[OF this] 2(5) show ?thesis by simp
qed

lemma fill_n_timing:
  "fill_n tone snds n m = Some m' \<Longrightarrow>
   samplesPerBeat (seq m') = samplesPerBeat (seq m) \<and>
   samplesPerTick (seq m') = samplesPerTick (seq m)"
proof (induction n arbitrary: m)
  case 0
  then show ?case by simp
next
  case (Suc n)
  from Suc.prems obtain m1 where d: "drum_fill_buffer tone snds m = Some m1"
    and r: "fill_n tone snds n m1 = Some m'" by (auto simp: bind_eq_Some_conv)
  from Suc.IH[OF r] drum_fill_buffer_timing[OF d] show ?case by simp
qed

text \<open>
  While \<open>buffer_playing\<close> is \<open>-1\<close> no fill is refused. \<open>n\<close> fills from block \<open>b\<close>, with
  \<open>b + n \<le> N_BUFFERS\<close>, write the next \<open>n * BUFFER_SIZE\<close> frames into the blocks
  \<open>b, \<dots>, b + n - 1\<close> in order and leave the other blocks alone.
\<close>

lemma fill_n_blocks:
  assumes "wf_machine snds m" and "buffer_playing m = - 1"
    and "buffer_to_fill m + int n \<le> N_BUFFERS"
  shows "\<exists>m'. fill_n tone snds n m = Some m' \<and> wf_machine snds m' \<and> buffer_playing m' = - 1 \<and>
           buffer_to_fill m' = (buffer_to_fill m + int n) mod N_BUFFERS \<and>
           run tone snds (n * nat BUFFER_SIZE) (seq m) = Some (seq m') \<and>
           (\<forall>j<n. \<forall>k<nat BUFFER_SIZE.
              emitted tone snds (j * nat BUFFER_SIZE + k) (seq m)
                = Some (buffer m' ! (nat (buffer_to_fill m) + j) ! k)) \<and>
           (\<forall>j. j < nat (buffer_to_fill m) \<or> nat (buffer_to_fill m) + n \<le> j \<longrightarrow>
              buffer m' ! j = buffer m ! j)"
  using assms
proof (induction n arbitrary: m)
  case 0
  then show ?case by (simp add: wf_machine_def N_BUFFERS_def)
next
  case (Suc n)
  let ?b = "buffer_to_fill m"
  have wm: "wf snds (seq m)" "int (length (buffer m)) = N_BUFFERS"
    "\<forall>row \<in> set (buffer m). int (length row) = BUFFER_SIZE" "0 \<le> ?b" "?b < N_BUFFERS"
    using Suc.prems(1) by (simp_all add: wf_machine_def)
  have ne: "buffer_playing m \<noteq> ?b" using Suc.prems(2) wm(4) by simp
  from drum_fill_buffer_fills[OF Suc.prems(1) ne, of tone] obtain row' st' where
    d: "drum_fill_buffer tone snds m =
          Some (m\<lparr>buffer := (buffer m)[nat ?b := row'], seq := st',
                  buffer_to_fill := (?b + 1) mod N_BUFFERS\<rparr>)"
    and r: "run tone snds (nat BUFFER_SIZE) (seq m) = Some st'" and w': "wf snds st'"
    and l: "int (length row') = BUFFER_SIZE"
    and c: "\<forall>k<nat BUFFER_SIZE. emitted tone snds k (seq m) = Some (row' ! k)" by blast
  define m1 where "m1 = m\<lparr>buffer := (buffer m)[nat ?b := row'], seq := st',
                  buffer_to_fill := (?b + 1) mod N_BUFFERS\<rparr>"
  have rows1: "\<forall>row \<in> set (buffer m1). int (length row) = BUFFER_SIZE"
  proof
    fix row assume "row \<in> set (buffer m1)"
    then have "row \<in> insert row' (set (buffer m))"
      using set_update_subset_insert[of "buffer m" "nat ?b" row'] by (auto simp: m1_def)
    then show "int (length row) = BUFFER_SIZE" using l wm(3) by auto
  qed
  have wf1: "wf_machine snds m1"
    using w' wm rows1 by (simp add: wf_machine_def m1_def N_BUFFERS_def)
  have p1: "buffer_playing m1 = - 1" using Suc.prems(2) by (simp add: m1_def)
  show ?case
  proof (cases n)
    case 0
    have "fill_n tone snds (Suc n) m = Some m1" using d 0 by (simp add: m1_def)
    moreover have "buffer_to_fill m1 = (?b + int (Suc n)) mod N_BUFFERS"
      using 0 by (simp add: m1_def)
    moreover have "run tone snds (Suc n * nat BUFFER_SIZE) (seq m) = Some (seq m1)"
      using r 0 by (simp add: m1_def)
    moreover have "\<forall>j<Suc n. \<forall>k<nat BUFFER_SIZE.
              emitted tone snds (j * nat BUFFER_SIZE + k) (seq m)
                = Some (buffer m1 ! (nat ?b + j) ! k)"
      using 0 c wm(2,4,5) by (simp add: m1_def)
    moreover have "\<forall>j. j < nat ?b \<or> nat ?b + Suc n \<le> j \<longrightarrow> buffer m1 ! j = buffer m ! j"
      by (auto simp: m1_def)
    ultimately show ?thesis using wf1 p1 by blast
  next
    case (Suc n')
    have b1: "buffer_to_fill m1 = ?b + 1"
      using Suc.prems(3) Suc wm(4) by (simp add: m1_def N_BUFFERS_def)
    then have le: "buffer_to_fill m1 + int n \<le> N_BUFFERS" using Suc.prems(3) by simp
    from Suc.IH[OF wf1 p1 le] obtain m' where
      f: "fill_n tone snds n m1 = Some m'" and wm': "wf_machine snds m'"
      and p': "buffer_playing m' = - 1"
      and b': "buffer_to_fill m' = (buffer_to_fill m1 + int n) mod N_BUFFERS"
      and r': "run tone snds (n * nat BUFFER_SIZE) (seq m1) = Some (seq m')"
      and c': "\<forall>j<n. \<forall>k<nat BUFFER_SIZE.
              emitted tone snds (j * nat BUFFER_SIZE + k) (seq m1)
                = Some (buffer m' ! (nat (buffer_to_fill m1) + j) ! k)"
      and o': "\<forall>j. j < nat (buffer_to_fill m1) \<or> nat (buffer_to_fill m1) + n \<le> j \<longrightarrow>
              buffer m' ! j = buffer m1 ! j" by blast
    have s1: "seq m1 = st'" by (simp add: m1_def)
    have nb: "nat (buffer_to_fill m1) = Suc (nat ?b)" using b1 wm(4) by simp
    have "fill_n tone snds (Suc n) m = Some m'" using d f by (simp add: m1_def)
    moreover have "buffer_to_fill m' = (?b + int (Suc n)) mod N_BUFFERS"
      using b' b1 by (simp add: algebra_simps)
    moreover have "run tone snds (Suc n * nat BUFFER_SIZE) (seq m) = Some (seq m')"
      using run_then[OF r] r' s1 by simp
    moreover have "emitted tone snds (j * nat BUFFER_SIZE + k) (seq m)
                = Some (buffer m' ! (nat ?b + j) ! k)"
      if "j < Suc n" "k < nat BUFFER_SIZE" for j k
    proof (cases j)
      case 0
      have "buffer m' ! nat ?b = buffer m1 ! nat ?b" using o' nb by simp
      also have "\<dots> = row'" using wm(2,4,5) by (simp add: m1_def)
      finally show ?thesis using 0 c that(2) by simp
    next
      case (Suc i)
      then have "i < n" using that(1) by simp
      with c' that(2) have "emitted tone snds (i * nat BUFFER_SIZE + k) st'
          = Some (buffer m' ! (nat ?b + j) ! k)" using nb Suc s1 by simp
      moreover have "emitted tone snds (nat BUFFER_SIZE + (i * nat BUFFER_SIZE + k)) (seq m)
          = emitted tone snds (i * nat BUFFER_SIZE + k) st'" using r by (rule emitted_add)
      ultimately show ?thesis using Suc by (simp add: add.assoc)
    qed
    moreover have "buffer m' ! j = buffer m ! j" if "j < nat ?b \<or> nat ?b + Suc n \<le> j" for j
    proof -
      have "buffer m' ! j = buffer m1 ! j" using o' nb that by auto
      also have "\<dots> = buffer m ! j" using that by (auto simp: m1_def)
      finally show ?thesis .
    qed
    ultimately show ?thesis using wm' p' by blast
  qed
qed

lemma main_prime_result:
  assumes "wf_machine snds (m\<lparr>seq := set_timing (seq m)\<rparr>)" and "buffer_to_fill m = 0"
  shows "\<exists>m'. main_prime tone snds m = Some m' \<and> wf_machine snds m' \<and>
           buffer_to_fill m' = 0 \<and> buffer_playing m' = N_BUFFERS - 1 \<and>
           run tone snds (nat N_BUFFERS * nat BUFFER_SIZE) (set_timing (seq m)) = Some (seq m') \<and>
           (\<forall>j<nat N_BUFFERS. \<forall>k<nat BUFFER_SIZE.
              emitted tone snds (j * nat BUFFER_SIZE + k) (set_timing (seq m))
                = Some (buffer m' ! j ! k))"
proof -
  define m0 where "m0 = m\<lparr>seq := set_timing (seq m), buffer_playing := - 1\<rparr>"
  have w0: "wf_machine snds m0" using assms(1) by (simp add: wf_machine_def m0_def)
  have p0: "buffer_playing m0 = - 1" by (simp add: m0_def)
  have b0: "buffer_to_fill m0 = 0" using assms(2) by (simp add: m0_def)
  then have "buffer_to_fill m0 + int (nat N_BUFFERS) \<le> N_BUFFERS" by (simp add: N_BUFFERS_def)
  from fill_n_blocks[OF w0 p0 this, of tone] obtain m1 where
    f: "fill_n tone snds (nat N_BUFFERS) m0 = Some m1" and w1: "wf_machine snds m1"
    and b1: "buffer_to_fill m1 = (buffer_to_fill m0 + int (nat N_BUFFERS)) mod N_BUFFERS"
    and r1: "run tone snds (nat N_BUFFERS * nat BUFFER_SIZE) (seq m0) = Some (seq m1)"
    and c1: "\<forall>j<nat N_BUFFERS. \<forall>k<nat BUFFER_SIZE.
              emitted tone snds (j * nat BUFFER_SIZE + k) (seq m0)
                = Some (buffer m1 ! (nat (buffer_to_fill m0) + j) ! k)" by blast
  have "main_prime tone snds m = Some (m1\<lparr>buffer_playing := N_BUFFERS - 1\<rparr>)"
    using f by (simp add: main_prime_def m0_def)
  moreover have "wf_machine snds (m1\<lparr>buffer_playing := N_BUFFERS - 1\<rparr>)"
    using w1 by (simp add: wf_machine_def)
  moreover have "buffer_to_fill m1 = 0" using b1 b0 by (simp add: N_BUFFERS_def)
  ultimately show ?thesis using r1 c1 b0 by (simp add: m0_def)
qed

lemma wf_machine_start: "wf_machine demo_sounds (machine_init\<lparr>seq := set_timing (seq machine_init)\<rparr>)"
  using wf_start by (simp add: wf_machine_def machine_init_def N_BUFFERS_def BUFFER_SIZE_def)

subsection \<open>Further frame facts\<close>

lemma play_voice_emph: "play_voice snds v = Some (a, v') \<Longrightarrow> emph v' = emph v"
  by (auto simp: play_voice_def Let_def bind_eq_Some_conv split: if_splits)

lemma dma_handler_seq [simp]: "seq (dma_handler m) = seq m"
  by (simp add: dma_handler_def)

lemma main_prime_timing:
  assumes "main_prime tone snds m = Some m'"
  shows "samplesPerBeat (seq m') = 17085 \<and> samplesPerTick (seq m') = 949"
proof -
  from assms obtain m1 where
    f: "fill_n tone snds (nat N_BUFFERS) (m\<lparr>seq := set_timing (seq m), buffer_playing := - 1\<rparr>) = Some m1"
    and m': "m' = m1\<lparr>buffer_playing := N_BUFFERS - 1\<rparr>"
    by (auto simp: main_prime_def bind_eq_Some_conv)
  from fill_n_timing[OF f] m' show ?thesis by (simp add: set_timing_values)
qed

subsection \<open>One voice across calls\<close>

lemma play_voice_static:
  "play_voice snds v = Some (a, v') \<Longrightarrow>
   sample v' = sample v \<and> pan v' = pan v \<and> volume v' = volume v"
  by (auto simp: play_voice_def Let_def bind_eq_Some_conv split: if_splits)

lemma generate_sample_static:
  assumes "generate_sample tone snds st = Some (w, st')" and "k < length (voices st)"
  shows "sample (voices st' ! k) = sample (voices st ! k) \<and>
         pan (voices st' ! k) = pan (voices st ! k) \<and>
         volume (voices st' ! k) = volume (voices st ! k)"
proof -
  from generate_sample_voice(2)[OF assms] obtain v1 a where
    p: "play_voice snds v1 = Some (a, voices st' ! k)"
    and v1: "if sampleOfTick st = 0
            then \<exists>c. cell st (int k) = Some c \<and> v1 = trigger_voice c (voices st ! k)
            else v1 = voices st ! k" by blast
  from v1 have "sample v1 = sample (voices st ! k) \<and> pan v1 = pan (voices st ! k) \<and>
     volume v1 = volume (voices st ! k)" by (auto split: if_splits)
  with play_voice_static[OF p] show ?thesis by simp
qed

lemma run_static:
  "run tone snds n st = Some st' \<Longrightarrow> k < length (voices st) \<Longrightarrow>
   length (voices st') = length (voices st) \<and>
   sample (voices st' ! k) = sample (voices st ! k) \<and>
   pan (voices st' ! k) = pan (voices st ! k) \<and>
   volume (voices st' ! k) = volume (voices st ! k)"
proof (induction n arbitrary: st)
  case 0
  then show ?case by simp
next
  case (Suc n)
  from Suc.prems(1) obtain w st1 where g: "generate_sample tone snds st = Some (w, st1)"
    and r: "run tone snds n st1 = Some st'" by (auto simp: bind_eq_Some_conv)
  have l: "length (voices st1) = length (voices st)"
    using generate_sample_voice(1)[OF g Suc.prems(2)] .
  from Suc.IH[OF r] l Suc.prems(2) generate_sample_static[OF g Suc.prems(2)]
  show ?case by simp
qed

lemma wf_nth_voice:
  "wf snds st \<Longrightarrow> k < length (voices st) \<Longrightarrow> wf_sounds snds \<and> wf_voice snds (voices st ! k)"
  by (simp add: wf_def)

text \<open>A call that does not trigger the voice only plays it.\<close>

lemma step_untriggered:
  assumes "wf snds st" and "generate_sample tone snds st = Some (w, st')"
    and "k < length (voices st)" and "\<not> triggers st (int k)"
  shows "play_voice snds (voices st ! k) = Some (a, v') \<longrightarrow> voices st' ! k = v'"
    and "0 \<le> sample (voices st ! k) \<Longrightarrow>
         pos (voices st' ! k) =
           (if pos (voices st ! k) = 0 then 0
            else if int (len (snds ! nat (sample (voices st ! k)))) \<le> pos (voices st ! k) + 1 then 0
            else pos (voices st ! k) + 1) \<and>
         emph (voices st' ! k) = emph (voices st ! k)"
proof -
  from generate_sample_voice(2)[OF assms(2,3)] obtain v1 b where
    p: "play_voice snds v1 = Some (b, voices st' ! k)"
    and v1: "if sampleOfTick st = 0
            then \<exists>c. cell st (int k) = Some c \<and> v1 = trigger_voice c (voices st ! k)
            else v1 = voices st ! k" by blast
  have e: "v1 = voices st ! k"
  proof (cases "sampleOfTick st = 0")
    case True
    with v1 obtain c where c: "cell st (int k) = Some c" "v1 = trigger_voice c (voices st ! k)"
      by auto
    with assms(4) True have "c = CHR '' ''" by (simp add: triggers_def)
    with c show ?thesis by (simp add: trigger_voice_def)
  next
    case False
    with v1 show ?thesis by simp
  qed
  show "play_voice snds (voices st ! k) = Some (a, v') \<longrightarrow> voices st' ! k = v'"
    using p e by simp
  assume s: "0 \<le> sample (voices st ! k)"
  note w = wf_nth_voice[OF assms(1,3)]
  from play_voice_cursor(2,3)[OF p[unfolded e] s] w
  show "pos (voices st' ! k) =
           (if pos (voices st ! k) = 0 then 0
            else if int (len (snds ! nat (sample (voices st ! k)))) \<le> pos (voices st ! k) + 1 then 0
            else pos (voices st ! k) + 1) \<and>
         emph (voices st' ! k) = emph (voices st ! k)" by simp
qed

text \<open>A call that triggers the voice plays it from cursor 1.\<close>

lemma step_triggered:
  assumes "wf snds st" and "generate_sample tone snds st = Some (w, st')"
    and "k < length (voices st)" and "sampleOfTick st = 0" and "cell st (int k) = Some c"
    and "c \<noteq> CHR '' ''" and "0 \<le> sample (voices st ! k)"
  shows "pos (voices st' ! k) =
           (if int (len (snds ! nat (sample (voices st ! k)))) \<le> 2 then 0 else 2) \<and>
         emph (voices st' ! k) = (of_char c - of_char (CHR ''1'')) * 12"
proof -
  let ?v = "voices st ! k"
  from generate_sample_voice(2)[OF assms(2,3)] assms(4,5) obtain b where
    p: "play_voice snds (trigger_voice c ?v) = Some (b, voices st' ! k)" by auto
  note w = wf_nth_voice[OF assms(1,3)]
  have wt: "wf_voice snds (trigger_voice c ?v)" using trigger_voice_wf w by blast
  have s: "0 \<le> sample (trigger_voice c ?v)" using assms(7) by simp
  from play_voice_cursor(2,3)[OF p s _ wt] w assms(6)
  show ?thesis by (simp add: trigger_voice_def)
qed

text \<open>
  After a trigger, and as long as the voice is not triggered again, the cursor counts
  up from 1 by one per call and goes back to 0 when it reaches the length.
\<close>

lemma cursor_after_trigger:
  assumes "wf snds st" and "k < length (voices st)" and "sampleOfTick st = 0"
    and "cell st (int k) = Some c" and "c \<noteq> CHR '' ''" and "0 \<le> sample (voices st ! k)"
    and "\<forall>j. 0 < j \<and> j \<le> m \<longrightarrow> (\<forall>sj. run tone snds j st = Some sj \<longrightarrow> \<not> triggers sj (int k))"
  shows "\<exists>sn. run tone snds (Suc m) st = Some sn \<and> wf snds sn \<and>
           emph (voices sn ! k) = (of_char c - of_char (CHR ''1'')) * 12 \<and>
           pos (voices sn ! k) =
             (if int m + 2 < int (len (snds ! nat (sample (voices st ! k)))) then int m + 2 else 0)"
  using assms(7)
proof (induction m)
  case 0
  from generate_sample_wf[OF assms(1), of tone] obtain w st' where
    g: "generate_sample tone snds st = Some (w, st')" and w': "wf snds st'" by blast
  from step_triggered[OF assms(1) g assms(2,3,4,5,6)] g w' show ?case by auto
next
  case (Suc m)
  let ?L = "int (len (snds ! nat (sample (voices st ! k))))"
  have "\<forall>j. 0 < j \<and> j \<le> m \<longrightarrow> (\<forall>sj. run tone snds j st = Some sj \<longrightarrow> \<not> triggers sj (int k))"
    using Suc.prems by auto
  from Suc.IH[OF this] obtain sn where r: "run tone snds (Suc m) st = Some sn"
    and wn: "wf snds sn"
    and en: "emph (voices sn ! k) = (of_char c - of_char (CHR ''1'')) * 12"
    and pn: "pos (voices sn ! k) = (if int m + 2 < ?L then int m + 2 else 0)" by blast
  have nt: "\<not> triggers sn (int k)" using Suc.prems r by blast
  from run_static[OF r assms(2)] have l: "length (voices sn) = length (voices st)"
    and s: "sample (voices sn ! k) = sample (voices st ! k)" by simp_all
  from generate_sample_wf[OF wn, of tone] obtain w st' where
    g: "generate_sample tone snds sn = Some (w, st')" and w': "wf snds st'" by blast
  have kn: "k < length (voices sn)" using l assms(2) by simp
  have sn0: "0 \<le> sample (voices sn ! k)" using s assms(6) by simp
  from step_untriggered(2)[OF wn g kn nt sn0] s
  have p': "pos (voices st' ! k) =
           (if pos (voices sn ! k) = 0 then 0
            else if ?L \<le> pos (voices sn ! k) + 1 then 0 else pos (voices sn ! k) + 1)"
    and e': "emph (voices st' ! k) = emph (voices sn ! k)" by simp_all
  have "run tone snds 1 sn = Some st'" using g by (simp add: run_one)
  from run_then[OF r this] have "run tone snds (Suc (Suc m)) st = Some st'" by simp
  moreover have "pos (voices st' ! k) = (if int (Suc m) + 2 < ?L then int (Suc m) + 2 else 0)"
    using p' pn by auto
  ultimately show ?case using w' e' en by (intro exI[of _ st']) simp
qed

lemma quiet_within_tick:
  assumes "wf snds st" and "sampleOfTick st = 0" and "int n \<le> samplesPerTick st"
  shows "\<forall>j. 0 < j \<and> j < n \<longrightarrow> (\<forall>sj. run tone snds j st = Some sj \<longrightarrow> \<not> triggers sj i)"
proof (intro allI impI)
  fix j sj assume j: "0 < j \<and> j < n" and r: "run tone snds j st = Some sj"
  have "sampleOfTick st + int j < samplesPerTick st" using assms(2,3) j by simp
  from run_within_tick[OF assms(1) this, of tone] r have "sampleOfTick sj = int j"
    using assms(2) by auto
  then show "\<not> triggers sj i" using j by (simp add: triggers_def)
qed

subsection \<open>The mix as a sum over the voices\<close>

lemma mix_loop_sum:
  "length as = length vs \<Longrightarrow>
   mix_loop vs as (l, r) =
     (l + (\<Sum>j<length vs. (emph (vs ! j) + volume (vs ! j)) * (as ! j) * pan (vs ! j)),
      r + (\<Sum>j<length vs. (emph (vs ! j) + volume (vs ! j)) * (as ! j) * (32 - pan (vs ! j))))"
proof (induction vs arbitrary: as l r)
  case Nil
  then show ?case by simp
next
  case (Cons v vs)
  from Cons.prems obtain a as' where as: "as = a # as'" and len: "length as' = length vs"
    by (cases as) auto
  show ?case using Cons.IH[OF len] as
    by (simp add: Let_def sum.lessThan_Suc_shift add.assoc del: sum.lessThan_Suc)
qed

lemma mix_sum:
  assumes "length as = length vs" and "k < length vs"
  shows "fst (mix vs as) =
           (emph (vs ! k) + volume (vs ! k)) * (as ! k) * pan (vs ! k) +
           (\<Sum>j \<in> {..<length vs} - {k}. (emph (vs ! j) + volume (vs ! j)) * (as ! j) * pan (vs ! j))"
    and "snd (mix vs as) =
           (emph (vs ! k) + volume (vs ! k)) * (as ! k) * (32 - pan (vs ! k)) +
           (\<Sum>j \<in> {..<length vs} - {k}.
              (emph (vs ! j) + volume (vs ! j)) * (as ! j) * (32 - pan (vs ! j)))"
proof -
  have k: "k \<in> {..<length vs}" using assms(2) by simp
  show "fst (mix vs as) =
           (emph (vs ! k) + volume (vs ! k)) * (as ! k) * pan (vs ! k) +
           (\<Sum>j \<in> {..<length vs} - {k}. (emph (vs ! j) + volume (vs ! j)) * (as ! j) * pan (vs ! j))"
    using mix_loop_sum[OF assms(1), of 0 0]
      sum.remove[OF _ k, of "\<lambda>j. (emph (vs ! j) + volume (vs ! j)) * (as ! j) * pan (vs ! j)"]
    by (simp add: mix_def)
  show "snd (mix vs as) =
           (emph (vs ! k) + volume (vs ! k)) * (as ! k) * (32 - pan (vs ! k)) +
           (\<Sum>j \<in> {..<length vs} - {k}.
              (emph (vs ! j) + volume (vs ! j)) * (as ! j) * (32 - pan (vs ! j)))"
    using mix_loop_sum[OF assms(1), of 0 0]
      sum.remove[OF _ k, of "\<lambda>j. (emph (vs ! j) + volume (vs ! j)) * (as ! j) * (32 - pan (vs ! j))"]
    by (simp add: mix_def)
qed

lemma play_voice_idle:
  "play_voice snds v = Some (a, v') \<Longrightarrow> pos v = 0 \<Longrightarrow> v' = v"
  by (auto simp: play_voice_def bind_eq_Some_conv split: if_splits)

subsection \<open>The first frame after start, on the example bank\<close>

lemma first_frame_trigger:
  "trigger (set_timing seq_init) = Some ((set_timing seq_init)\<lparr>voices :=
     [mk_voice 16 192 0 1 0, mk_voice 8 0 1 0 0, mk_voice 16 40 2 0 0,
      mk_voice 18 80 3 0 0, mk_voice 28 30 4 1 0, mk_voice 4 30 0 0 0]\<rparr>)"
  by (simp add: trigger_def seq_init_def voices_init_def cell_def rd_def bars_def patterns_def
        pattern0_def trigger_voice_def mk_voice_def)

lemma first_frame_play:
  "play_loop demo_sounds
     [mk_voice 16 192 0 1 0, mk_voice 8 0 1 0 0, mk_voice 16 40 2 0 0,
      mk_voice 18 80 3 0 0, mk_voice 28 30 4 1 0, mk_voice 4 30 0 0 0]
   = Some ([1000, 5, 0, - 3, 250, 0],
       [mk_voice 16 192 0 2 0, mk_voice 8 0 1 0 0, mk_voice 16 40 2 0 0,
        mk_voice 18 80 3 0 0, mk_voice 28 30 4 2 0, mk_voice 4 30 0 0 0])"
  by (simp add: play_voice_def rd_def demo_sounds_def sound_of_def mk_voice_def Let_def)

lemma first_frame_mix:
  "mix [mk_voice 16 192 0 2 0, mk_voice 8 0 1 0 0, mk_voice 16 40 2 0 0,
        mk_voice 18 80 3 0 0, mk_voice 28 30 4 2 0, mk_voice 4 30 0 0 0]
       [1000, 5, 0, - 3, 250, 0] = (3277680, 3098640)"
  by (simp add: mix_def mk_voice_def Let_def)

lemma first_frame_synth:
  "synth demo_sounds (set_timing seq_init) =
     Some ((3277680, 3098640), (set_timing seq_init)\<lparr>voices :=
       [mk_voice 16 192 0 2 0, mk_voice 8 0 1 0 0, mk_voice 16 40 2 0 0,
        mk_voice 18 80 3 0 0, mk_voice 28 30 4 2 0, mk_voice 4 30 0 0 0]\<rparr>)"
  unfolding synth_def first_frame_trigger
  by (simp add: first_frame_play first_frame_mix del: play_loop.simps)

lemma first_frame:
  "generate_sample tone demo_sounds (set_timing seq_init) =
     Some (smpl_d1 (tone 0) (tone 0),
       \<lparr>bar = 0, tickOfBar = 0, sampleOfTick = 1, samplesPerBeat = 17085, samplesPerTick = 949,
        voices = [mk_voice 16 192 0 2 0, mk_voice 8 0 1 0 0, mk_voice 16 40 2 0 0,
                  mk_voice 18 80 3 0 0, mk_voice 28 30 4 2 0, mk_voice 4 30 0 0 0],
        index1 = 1\<rparr>)"
  unfolding generate_sample_def first_frame_synth
  using set_timing_values[of seq_init]
  by (simp add: advance_def test_tone_def Let_def seq_init_def set_timing_def)

lemma smpl_d1_dc: "smpl_d1 15000 15000 = 983055000"
  by (simp add: smpl_d1_def)

subsection \<open>The counter of the test tone\<close>

lemma index1_step:
  assumes "generate_sample tone snds st = Some (w, st')"
    and "0 \<le> index1 st" and "index1 st \<le> 400"
  shows "1 \<le> index1 st'" and "index1 st' \<le> 400"
    and "index1 st' mod 400 = (index1 st + 1) mod 400"
    and "w = smpl_d1 (tone (index1 st mod 400)) (tone (index1 st mod 400))"
proof -
  note f = generate_sample_frame(6,7)[OF assms(1)]
  show "1 \<le> index1 st'" "index1 st' \<le> 400" using f(1) assms(2,3) by auto
  show "index1 st' mod 400 = (index1 st + 1) mod 400" using f(1) assms(2,3) by auto
  have "(if 400 \<le> index1 st then 0 else index1 st) = index1 st mod 400"
    using assms(2,3) by auto
  with f(2) show "w = smpl_d1 (tone (index1 st mod 400)) (tone (index1 st mod 400))" by simp
qed

lemma index1_run:
  "run tone snds n st = Some st' \<Longrightarrow> 0 \<le> index1 st \<Longrightarrow> index1 st \<le> 400 \<Longrightarrow>
   0 \<le> index1 st' \<and> index1 st' \<le> 400 \<and> (0 < n \<longrightarrow> 1 \<le> index1 st') \<and>
   index1 st' mod 400 = (index1 st + int n) mod 400"
proof (induction n arbitrary: st)
  case 0
  then show ?case by simp
next
  case (Suc n)
  from Suc.prems(1) obtain w st1 where g: "generate_sample tone snds st = Some (w, st1)"
    and r: "run tone snds n st1 = Some st'" by (auto simp: bind_eq_Some_conv)
  note s = index1_step(1,2,3)[OF g Suc.prems(2,3)]
  have b: "0 \<le> index1 st1" using s(1) by simp
  from Suc.IH[OF r b s(2)] have ih: "0 \<le> index1 st'" "index1 st' \<le> 400"
    "0 < n \<longrightarrow> 1 \<le> index1 st'" "index1 st' mod 400 = (index1 st1 + int n) mod 400" by simp_all
  have "(index1 st1 + int n) mod 400 = (index1 st1 mod 400 + int n) mod 400"
    by (simp add: mod_add_left_eq)
  also have "\<dots> = ((index1 st + 1) mod 400 + int n) mod 400" using s(3) by simp
  also have "\<dots> = (index1 st + int (Suc n)) mod 400" by (simp add: mod_add_left_eq add.assoc)
  finally have m: "index1 st' mod 400 = (index1 st + int (Suc n)) mod 400" using ih(4) by simp
  have "1 \<le> index1 st'"
  proof (cases n)
    case 0
    with r s(1) show ?thesis by simp
  next
    case (Suc k)
    with ih(3) show ?thesis by simp
  qed
  with ih m show ?case by simp
qed

lemma emitted_tone:
  assumes "wf snds st" and "0 \<le> index1 st" and "index1 st \<le> 400"
  shows "emitted tone snds n st =
           Some (smpl_d1 (tone ((index1 st + int n) mod 400)) (tone ((index1 st + int n) mod 400)))"
proof -
  from run_wf[OF assms(1), of tone n] obtain sn where r: "run tone snds n st = Some sn"
    and wn: "wf snds sn" by blast
  from index1_run[OF r assms(2,3)] have i: "0 \<le> index1 sn" "index1 sn \<le> 400"
    "index1 sn mod 400 = (index1 st + int n) mod 400" by simp_all
  from generate_sample_wf[OF wn, of tone] obtain w st' where
    g: "generate_sample tone snds sn = Some (w, st')" by blast
  from index1_step(4)[OF g i(1,2)] i(3) r g show ?thesis by (simp add: emitted_def)
qed

subsection \<open>A frame with a single sounding voice\<close>

lemma play_voice_amplitude:
  assumes "play_voice snds v = Some (a, v')"
  shows "a = (if 0 \<le> sample v then sint (samples (snds ! nat (sample v)) ! nat (pos v)) else 0)"
  using assms by (auto simp: play_voice_def bind_eq_Some_conv rd_Some_iff split: if_splits)

lemma wf_tick31: "wf demo_sounds ((set_timing seq_init)\<lparr>tickOfBar := 31\<rparr>)"
  using wf_start by (simp add: wf_def wf_transport_def BAR_LEN_def)

lemma wf_zero_start_sounds: "wf_sounds zero_start_sounds"
  by (simp add: wf_sounds_def zero_start_sounds_def sound_of_def)

lemma wf_tick31_zero: "wf zero_start_sounds ((set_timing seq_init)\<lparr>tickOfBar := 31\<rparr>)"
  using wf_zero_start_sounds
  by (simp add: wf_def wf_transport_def set_timing_values seq_init_def LOOP_BARS_def BAR_LEN_def
      N_VOICES_def voices_init_def mk_voice_def wf_voice_def zero_start_sounds_def sound_of_def)

lemma tick31_trigger:
  "trigger ((set_timing seq_init)\<lparr>tickOfBar := 31\<rparr>) =
     Some ((set_timing seq_init)\<lparr>tickOfBar := 31, voices :=
       [mk_voice 16 192 0 1 0, mk_voice 8 0 1 0 0, mk_voice 16 40 2 0 0,
        mk_voice 18 80 3 0 0, mk_voice 28 30 4 0 0, mk_voice 4 30 0 0 0]\<rparr>)"
  by (simp add: trigger_def seq_init_def voices_init_def cell_def rd_def bars_def patterns_def
        pattern0_def trigger_voice_def mk_voice_def)

lemma tick31_play:
  "play_loop demo_sounds
     [mk_voice 16 192 0 1 0, mk_voice 8 0 1 0 0, mk_voice 16 40 2 0 0,
      mk_voice 18 80 3 0 0, mk_voice 28 30 4 0 0, mk_voice 4 30 0 0 0]
   = Some ([1000, 5, 0, - 3, 0, 0],
       [mk_voice 16 192 0 2 0, mk_voice 8 0 1 0 0, mk_voice 16 40 2 0 0,
        mk_voice 18 80 3 0 0, mk_voice 28 30 4 0 0, mk_voice 4 30 0 0 0])"
  by (simp add: play_voice_def rd_def demo_sounds_def sound_of_def mk_voice_def Let_def)

lemma tick31_play_zero:
  "play_loop zero_start_sounds
     [mk_voice 16 192 0 1 0, mk_voice 8 0 1 0 0, mk_voice 16 40 2 0 0,
      mk_voice 18 80 3 0 0, mk_voice 28 30 4 0 0, mk_voice 4 30 0 0 0]
   = Some ([1000, 0, 0, 0, 0, 0],
       [mk_voice 16 192 0 2 0, mk_voice 8 0 1 0 0, mk_voice 16 40 2 0 0,
        mk_voice 18 80 3 0 0, mk_voice 28 30 4 0 0, mk_voice 4 30 0 0 0])"
  by (simp add: play_voice_def rd_def zero_start_sounds_def sound_of_def mk_voice_def Let_def)

lemma tick31_mix:
  "mix [mk_voice 16 192 0 2 0, mk_voice 8 0 1 0 0, mk_voice 16 40 2 0 0,
        mk_voice 18 80 3 0 0, mk_voice 28 30 4 0 0, mk_voice 4 30 0 0 0]
       [1000, 5, 0, - 3, 0, 0] = (3067680, 3068640)"
  by (simp add: mix_def mk_voice_def Let_def)

lemma tick31_synth:
  "synth demo_sounds ((set_timing seq_init)\<lparr>tickOfBar := 31\<rparr>) =
     Some ((3067680, 3068640), (set_timing seq_init)\<lparr>tickOfBar := 31, voices :=
       [mk_voice 16 192 0 2 0, mk_voice 8 0 1 0 0, mk_voice 16 40 2 0 0,
        mk_voice 18 80 3 0 0, mk_voice 28 30 4 0 0, mk_voice 4 30 0 0 0]\<rparr>)"
  unfolding synth_def tick31_trigger
  by (simp add: tick31_play tick31_mix del: play_loop.simps)

section \<open>The claims\<close>

text \<open>
  Claim C3 (transport). From a well-formed state a call returns, and the counters move by
  exactly one frame: \<open>sampleOfTick\<close> goes up by one, or wraps to 0 at \<open>samplesPerTick\<close>
  while \<open>tickOfBar\<close> goes up by one, or wraps to 0 at \<open>BAR_LEN\<close> while \<open>bar\<close> goes up by one
  modulo \<open>LOOP_BARS\<close>. The ranges of the three counters hold again after the call. From
  the start of a bar, \<open>samplesPerTick * BAR_LEN\<close> calls lead to the start of the next bar
  (modulo \<open>LOOP_BARS\<close>).
\<close>

theorem transport_advance:
  assumes "wf snds st"
  shows "\<exists>w st'. generate_sample tone snds st = Some (w, st') \<and> wf_transport st' \<and>
           samplesPerTick st' = samplesPerTick st \<and>
           (if sampleOfTick st + 1 < samplesPerTick st
            then sampleOfTick st' = sampleOfTick st + 1 \<and> tickOfBar st' = tickOfBar st \<and>
                 bar st' = bar st
            else sampleOfTick st' = 0 \<and>
                 (if tickOfBar st + 1 < BAR_LEN
                  then tickOfBar st' = tickOfBar st + 1 \<and> bar st' = bar st
                  else tickOfBar st' = 0 \<and> bar st' = (bar st + 1) mod LOOP_BARS)) \<and>
           (tickOfBar st = 0 \<and> sampleOfTick st = 0 \<longrightarrow>
              (\<exists>st''. run tone snds (nat (samplesPerTick st * BAR_LEN)) st = Some st'' \<and>
                 wf_transport st'' \<and> bar st'' = (bar st + 1) mod LOOP_BARS \<and>
                 tickOfBar st'' = 0 \<and> sampleOfTick st'' = 0))"
proof -
  have tr: "wf_transport st" using assms by (simp add: wf_def)
  then have rng: "0 \<le> bar st" "bar st < LOOP_BARS" "0 \<le> tickOfBar st" "tickOfBar st < BAR_LEN"
    "0 \<le> sampleOfTick st" "sampleOfTick st < samplesPerTick st"
    by (simp_all add: wf_transport_def)
  have wrap: "(bar st + 1) mod LOOP_BARS = (if bar st + 1 = LOOP_BARS then 0 else bar st + 1)"
    using rng(1,2) by (simp add: LOOP_BARS_def)
  from generate_sample_wf[OF assms] obtain w st' where
    g: "generate_sample tone snds st = Some (w, st')" and w': "wf snds st'" by blast
  note f = generate_sample_frame[OF g]
  have one: "if sampleOfTick st + 1 < samplesPerTick st
            then sampleOfTick st' = sampleOfTick st + 1 \<and> tickOfBar st' = tickOfBar st \<and>
                 bar st' = bar st
            else sampleOfTick st' = 0 \<and>
                 (if tickOfBar st + 1 < BAR_LEN
                  then tickOfBar st' = tickOfBar st + 1 \<and> bar st' = bar st
                  else tickOfBar st' = 0 \<and> bar st' = (bar st + 1) mod LOOP_BARS)"
  proof (cases "sampleOfTick st + 1 < samplesPerTick st")
    case True
    then have "sampleOfTick st + 1 \<noteq> samplesPerTick st" by simp
    from advance_within_tick[OF this] True f show ?thesis by simp
  next
    case False
    then have "sampleOfTick st + 1 = samplesPerTick st" using rng(6) by simp
    from advance_end_of_tick[OF this] False f rng(4) wrap show ?thesis
      by (auto split: if_splits)
  qed
  have bar: "\<exists>st''. run tone snds (nat (samplesPerTick st * BAR_LEN)) st = Some st'' \<and>
                 wf_transport st'' \<and> bar st'' = (bar st + 1) mod LOOP_BARS \<and>
                 tickOfBar st'' = 0 \<and> sampleOfTick st'' = 0"
    if z: "tickOfBar st = 0" "sampleOfTick st = 0"
  proof -
    have "nat (samplesPerTick st * BAR_LEN) = nat BAR_LEN * nat (samplesPerTick st)"
      using rng(5,6) by (simp add: BAR_LEN_def nat_mult_distrib)
    with run_bar[OF assms z(2,1), of tone] wrap show ?thesis by (auto simp: wf_def)
  qed
  from g w' f(2) one bar show ?thesis by (auto simp: wf_def)
qed

theorem transport_advance_witness:
  "\<forall>tone. wf demo_sounds (set_timing seq_init) \<and>
     (\<exists>w st'. generate_sample tone demo_sounds (set_timing seq_init) = Some (w, st') \<and>
        sampleOfTick st' = 1 \<and> tickOfBar st' = 0 \<and> bar st' = 0) \<and>
     (\<exists>st''. run tone demo_sounds (949 * 72) (set_timing seq_init) = Some st'' \<and>
        bar st'' = 1 \<and> tickOfBar st'' = 0 \<and> sampleOfTick st'' = 0)"
proof
  fix tone
  from transport_advance[OF wf_start, of tone] wf_start
  show "wf demo_sounds (set_timing seq_init) \<and>
     (\<exists>w st'. generate_sample tone demo_sounds (set_timing seq_init) = Some (w, st') \<and>
        sampleOfTick st' = 1 \<and> tickOfBar st' = 0 \<and> bar st' = 0) \<and>
     (\<exists>st''. run tone demo_sounds (949 * 72) (set_timing seq_init) = Some st'' \<and>
        bar st'' = 1 \<and> tickOfBar st'' = 0 \<and> sampleOfTick st'' = 0)"
    by (simp add: set_timing_values seq_init_def BAR_LEN_def LOOP_BARS_def) blast
qed

text \<open>
  Claim C7 (priming), as amended. From the start state of \<open>main\<close> the priming phase
  returns, and afterwards every block holds synthesized frames: slot \<open>k\<close> of block \<open>j\<close> is
  the word returned by call number \<open>j * BUFFER_SIZE + k\<close>. \<open>buffer_to_fill\<close> has wrapped
  back to 0 and \<open>buffer_playing\<close> is \<open>N_BUFFERS - 1\<close>, so the fill cursor is one block
  ahead of the play cursor modulo \<open>N_BUFFERS\<close>.
\<close>

theorem priming_fills_all_blocks:
  assumes "wf_machine snds (m\<lparr>seq := set_timing (seq m)\<rparr>)" and "buffer_to_fill m = 0"
  shows "\<exists>m'. main_prime tone snds m = Some m' \<and>
           (\<forall>j<nat N_BUFFERS. \<forall>k<nat BUFFER_SIZE.
              emitted tone snds (j * nat BUFFER_SIZE + k) (set_timing (seq m))
                = Some (buffer m' ! j ! k)) \<and>
           buffer_to_fill m' = 0 \<and> buffer_playing m' = N_BUFFERS - 1 \<and>
           buffer_to_fill m' = (buffer_playing m' + 1) mod N_BUFFERS"
proof -
  from main_prime_result[OF assms, of tone] obtain m' where
    "main_prime tone snds m = Some m'" "buffer_to_fill m' = 0" "buffer_playing m' = N_BUFFERS - 1"
    "\<forall>j<nat N_BUFFERS. \<forall>k<nat BUFFER_SIZE.
              emitted tone snds (j * nat BUFFER_SIZE + k) (set_timing (seq m))
                = Some (buffer m' ! j ! k)" by blast
  then show ?thesis by (auto simp: N_BUFFERS_def)
qed

theorem priming_fills_all_blocks_witness:
  "\<exists>m'. main_prime dc_tone demo_sounds machine_init = Some m' \<and>
     (\<forall>j<4. \<forall>k<49. emitted dc_tone demo_sounds (j * 49 + k) (set_timing seq_init)
         = Some (buffer m' ! j ! k)) \<and>
     buffer_to_fill m' = 0 \<and> buffer_playing m' = 3"
proof -
  have b: "buffer_to_fill machine_init = 0" by (simp add: machine_init_def)
  from priming_fills_all_blocks[OF wf_machine_start b, of dc_tone] obtain m' where
    "main_prime dc_tone demo_sounds machine_init = Some m'"
    "\<forall>j<nat N_BUFFERS. \<forall>k<nat BUFFER_SIZE.
       emitted dc_tone demo_sounds (j * nat BUFFER_SIZE + k) (set_timing (seq machine_init))
         = Some (buffer m' ! j ! k)"
    "buffer_to_fill m' = 0" "buffer_playing m' = N_BUFFERS - 1" by blast
  then show ?thesis by (simp add: N_BUFFERS_def BUFFER_SIZE_def machine_init_def)
qed

text \<open>
  Claim C7 as stated puts the fill cursor \<open>N_BUFFERS - 1\<close> ahead of the play cursor. After
  priming from the initial state the fill cursor is 0 and the play cursor is
  \<open>N_BUFFERS - 1\<close>: the difference is 1 modulo \<open>N_BUFFERS\<close>, not \<open>N_BUFFERS - 1\<close>, and the fill
  cursor itself is not \<open>N_BUFFERS - 1\<close> either.
\<close>

theorem priming_cursor_counterexample:
  "map_option buffer_to_fill (main_prime dc_tone demo_sounds machine_init) = Some 0 \<and>
   map_option buffer_playing (main_prime dc_tone demo_sounds machine_init) = Some (N_BUFFERS - 1) \<and>
   (0 - (N_BUFFERS - 1)) mod N_BUFFERS = 1 \<and> (0 - (N_BUFFERS - 1)) mod N_BUFFERS \<noteq> N_BUFFERS - 1 \<and>
   0 mod N_BUFFERS \<noteq> (N_BUFFERS - 1) mod N_BUFFERS"
proof -
  have b: "buffer_to_fill machine_init = 0" by (simp add: machine_init_def)
  from main_prime_result[OF wf_machine_start b, of dc_tone] obtain m' where
    "main_prime dc_tone demo_sounds machine_init = Some m'" "buffer_to_fill m' = 0"
    "buffer_playing m' = N_BUFFERS - 1" by blast
  then show ?thesis by (simp add: N_BUFFERS_def)
qed

text \<open>
  Claim C2 (refused fill). When \<open>buffer_to_fill\<close> equals \<open>buffer_playing\<close> the call of
  \<open>drum_fill_buffer\<close> returns the machine as it was: no block, no cursor, no counter and
  no voice changes. In every call the block indexed by \<open>buffer_playing\<close> is left as it
  was.
\<close>

theorem fill_refused_when_caught_up:
  "(buffer_playing m = buffer_to_fill m \<longrightarrow> drum_fill_buffer tone snds m = Some m) \<and>
   (\<forall>m'. drum_fill_buffer tone snds m = Some m' \<longrightarrow> 0 \<le> buffer_playing m \<longrightarrow>
      buffer m' ! nat (buffer_playing m) = buffer m ! nat (buffer_playing m))"
proof (intro conjI allI impI)
  assume "buffer_playing m = buffer_to_fill m"
  then show "drum_fill_buffer tone snds m = Some m" by (simp add: drum_fill_buffer_def)
next
  fix m' assume d: "drum_fill_buffer tone snds m = Some m'" and p: "0 \<le> buffer_playing m"
  from d show "buffer m' ! nat (buffer_playing m) = buffer m ! nat (buffer_playing m)"
  proof (cases rule: drum_fill_buffer_cases)
    case 1
    then show ?thesis by simp
  next
    case (2 row' st')
    then have "nat (buffer_to_fill m) \<noteq> nat (buffer_playing m)" using p by simp
    then show ?thesis using 2(5) by simp
  qed
qed

theorem fill_refused_when_caught_up_witness:
  "drum_fill_buffer dc_tone demo_sounds (machine_init\<lparr>seq := set_timing (seq machine_init)\<rparr>)
     = Some (machine_init\<lparr>seq := set_timing (seq machine_init)\<rparr>) \<and>
   (\<exists>m'. drum_fill_buffer dc_tone demo_sounds
            (machine_init\<lparr>seq := set_timing (seq machine_init), buffer_playing := 1\<rparr>) = Some m' \<and>
      buffer_to_fill m' = 1 \<and>
      buffer m' ! 1 = replicate 49 0)"
proof -
  let ?m0 = "machine_init\<lparr>seq := set_timing (seq machine_init)\<rparr>"
  let ?m1 = "machine_init\<lparr>seq := set_timing (seq machine_init), buffer_playing := 1\<rparr>"
  have e: "buffer_playing ?m0 = buffer_to_fill ?m0" by (simp add: machine_init_def)
  have first: "drum_fill_buffer dc_tone demo_sounds ?m0 = Some ?m0"
    using fill_refused_when_caught_up[of ?m0 dc_tone demo_sounds] e by blast
  have w: "wf_machine demo_sounds ?m1" using wf_machine_start by (simp add: wf_machine_def)
  have ne: "buffer_playing ?m1 \<noteq> buffer_to_fill ?m1" by (simp add: machine_init_def)
  from drum_fill_buffer_fills[OF w ne, of dc_tone] obtain m' where
    d: "drum_fill_buffer dc_tone demo_sounds ?m1 = Some m'"
    and b: "buffer_to_fill m' = (buffer_to_fill ?m1 + 1) mod N_BUFFERS" by force
  have "buffer m' ! nat (buffer_playing ?m1) = buffer ?m1 ! nat (buffer_playing ?m1)"
    using fill_refused_when_caught_up[of ?m1 dc_tone demo_sounds] d by simp
  then have "buffer m' ! 1 = replicate 49 0"
    by (simp add: machine_init_def N_BUFFERS_def BUFFER_SIZE_def)
  moreover have "buffer_to_fill m' = 1" using b by (simp add: machine_init_def N_BUFFERS_def)
  ultimately show ?thesis using first d by blast
qed

text \<open>
  Claim C8 (timing parameters). \<open>main\<close> computes
  \<open>samplesPerBeat = SAMPLE_RATE * 60 / BPM\<close> and
  \<open>samplesPerTick = samplesPerBeat * BEATS_PER_BAR / BAR_LEN\<close> with C's integer division:
  17085 and 949, where the remainders 105 and 12 are dropped. The priming phase ends with
  these values, and neither \<open>generate_sample\<close> nor \<open>drum_fill_buffer\<close> nor the DMA handler
  changes them.
\<close>

theorem timing_parameters:
  "samplesPerBeat (set_timing st) = c_div (SAMPLE_RATE * 60) BPM \<and>
   samplesPerTick (set_timing st) = c_div (samplesPerBeat (set_timing st) * BEATS_PER_BAR) BAR_LEN \<and>
   samplesPerBeat (set_timing st) = 17085 \<and> samplesPerTick (set_timing st) = 949 \<and>
   SAMPLE_RATE * 60 = 17085 * BPM + 105 \<and> 17085 * BEATS_PER_BAR = 949 * BAR_LEN + 12 \<and>
   (\<forall>m'. main_prime tone snds m = Some m' \<longrightarrow>
      samplesPerBeat (seq m') = 17085 \<and> samplesPerTick (seq m') = 949) \<and>
   (\<forall>w st'. generate_sample tone snds st = Some (w, st') \<longrightarrow>
      samplesPerBeat st' = samplesPerBeat st \<and> samplesPerTick st' = samplesPerTick st) \<and>
   (\<forall>m'. drum_fill_buffer tone snds m = Some m' \<longrightarrow>
      samplesPerBeat (seq m') = samplesPerBeat (seq m) \<and>
      samplesPerTick (seq m') = samplesPerTick (seq m)) \<and>
   samplesPerBeat (seq (dma_handler m)) = samplesPerBeat (seq m) \<and>
   samplesPerTick (seq (dma_handler m)) = samplesPerTick (seq m)"
proof -
  have "samplesPerBeat (set_timing st) = c_div (SAMPLE_RATE * 60) BPM"
    by (simp add: set_timing_def Let_def)
  moreover have "samplesPerTick (set_timing st)
      = c_div (samplesPerBeat (set_timing st) * BEATS_PER_BAR) BAR_LEN"
    by (simp add: set_timing_def Let_def)
  moreover have "SAMPLE_RATE * 60 = 17085 * BPM + 105"
    by (simp add: SAMPLE_RATE_value BPM_def)
  moreover have "17085 * BEATS_PER_BAR = 949 * BAR_LEN + 12"
    by (simp add: BEATS_PER_BAR_def BAR_LEN_def)
  ultimately show ?thesis
    using set_timing_values[of st] main_prime_timing[of tone snds m]
      generate_sample_frame(1,2)[of tone snds st] drum_fill_buffer_timing[of tone snds m]
    by simp
qed

theorem timing_parameters_witness:
  "\<exists>m' w st'. main_prime dc_tone demo_sounds machine_init = Some m' \<and>
     samplesPerBeat (seq m') = 17085 \<and> samplesPerTick (seq m') = 949 \<and>
     generate_sample dc_tone demo_sounds (seq m') = Some (w, st') \<and>
     samplesPerBeat st' = 17085 \<and> samplesPerTick st' = 949"
proof -
  have b: "buffer_to_fill machine_init = 0" by (simp add: machine_init_def)
  from main_prime_result[OF wf_machine_start b, of dc_tone] obtain m' where
    m: "main_prime dc_tone demo_sounds machine_init = Some m'"
    and w: "wf_machine demo_sounds m'" by blast
  from w have "wf demo_sounds (seq m')" by (simp add: wf_machine_def)
  from generate_sample_wf[OF this, of dc_tone] obtain w st' where
    g: "generate_sample dc_tone demo_sounds (seq m') = Some (w, st')" by blast
  from timing_parameters[of "seq m'" dc_tone demo_sounds machine_init] m g
  show ?thesis by simp
qed

text \<open>
  Claim C10 (what triggers). At the first frame of a tick every voice has a pattern cell
  \<open>c\<close>. If \<open>c\<close> is not the space, the trigger step sets the cursor of the voice to 1 and its
  emphasis to \<open>(c - '1') * 12\<close>, which is still its emphasis when the call returns and is
  negative when \<open>c\<close> is below \<open>'1'\<close>; if \<open>c\<close> is the space the trigger step leaves the voice
  as it was. The loop body does so for every character, digit or not.
\<close>

theorem trigger_iff_not_space:
  assumes "sampleOfTick st = 0" and "trigger st = Some st1"
    and "generate_sample tone snds st = Some (w, st')"
    and "0 \<le> i" and "i < int (length (voices st))"
  shows "(\<exists>c. cell st i = Some c \<and>
           (c \<noteq> CHR '' '' \<longrightarrow>
              pos (voices st1 ! nat i) = 1 \<and>
              emph (voices st1 ! nat i) = (of_char c - of_char (CHR ''1'')) * 12 \<and>
              emph (voices st' ! nat i) = (of_char c - of_char (CHR ''1'')) * 12 \<and>
              ((of_char c :: int) < of_char (CHR ''1'') \<longrightarrow> emph (voices st' ! nat i) < 0)) \<and>
           (c = CHR '' '' \<longrightarrow>
              voices st1 ! nat i = voices st ! nat i \<and>
              emph (voices st' ! nat i) = emph (voices st ! nat i))) \<and>
         (\<forall>c v. c \<noteq> CHR '' '' \<longrightarrow>
           pos (trigger_voice c v) = 1 \<and>
           emph (trigger_voice c v) = (of_char c - of_char (CHR ''1'')) * 12 \<and>
           ((of_char c :: int) < of_char (CHR ''1'') \<longrightarrow> emph (trigger_voice c v) < 0)) \<and>
         (\<forall>v. trigger_voice (CHR '' '') v = v)"
proof -
  have k: "nat i < length (voices st)" using assms(4,5) by simp
  from assms(2) obtain vs where vs: "trigger_loop st 0 (voices st) = Some vs"
    and st1: "st1 = st\<lparr>voices := vs\<rparr>"
    using assms(1) by (cases rule: trigger_cases) simp_all
  from trigger_loop_nth[OF vs] k obtain c where c: "cell st (0 + int (nat i)) = Some c"
    and v1: "vs ! nat i = trigger_voice c (voices st ! nat i)" by blast
  from generate_sample_voice(2)[OF assms(3) k] assms(1) obtain d a where
    d: "cell st (int (nat i)) = Some d"
    and p: "play_voice snds (trigger_voice d (voices st ! nat i)) = Some (a, voices st' ! nat i)"
    by auto
  have dc: "d = c" using c d by simp
  have e: "emph (voices st' ! nat i) = emph (trigger_voice c (voices st ! nat i))"
    using play_voice_emph[OF p] dc by simp
  have ci: "cell st i = Some c" using c assms(4) by simp
  have "\<exists>c. cell st i = Some c \<and>
           (c \<noteq> CHR '' '' \<longrightarrow>
              pos (voices st1 ! nat i) = 1 \<and>
              emph (voices st1 ! nat i) = (of_char c - of_char (CHR ''1'')) * 12 \<and>
              emph (voices st' ! nat i) = (of_char c - of_char (CHR ''1'')) * 12 \<and>
              ((of_char c :: int) < of_char (CHR ''1'') \<longrightarrow> emph (voices st' ! nat i) < 0)) \<and>
           (c = CHR '' '' \<longrightarrow>
              voices st1 ! nat i = voices st ! nat i \<and>
              emph (voices st' ! nat i) = emph (voices st ! nat i))"
    using ci v1 st1 e by (intro exI[of _ c]) (simp add: trigger_voice_def)
  moreover have "\<forall>c v. c \<noteq> CHR '' '' \<longrightarrow>
           pos (trigger_voice c v) = 1 \<and>
           emph (trigger_voice c v) = (of_char c - of_char (CHR ''1'')) * 12 \<and>
           ((of_char c :: int) < of_char (CHR ''1'') \<longrightarrow> emph (trigger_voice c v) < 0)"
    by (simp add: trigger_voice_def)
  moreover have "\<forall>v. trigger_voice (CHR '' '') v = v" by (simp add: trigger_voice_def)
  ultimately show ?thesis by blast
qed

theorem trigger_iff_not_space_witness:
  "\<exists>st1 w st'.
     trigger ((set_timing seq_init)\<lparr>bar := 3\<rparr>) = Some st1 \<and>
     generate_sample dc_tone demo_sounds ((set_timing seq_init)\<lparr>bar := 3\<rparr>) = Some (w, st') \<and>
     cell ((set_timing seq_init)\<lparr>bar := 3\<rparr>) 0 = Some (CHR ''9'') \<and>
     pos (voices st1 ! 0) = 1 \<and> emph (voices st1 ! 0) = 96 \<and> emph (voices st' ! 0) = 96 \<and>
     cell ((set_timing seq_init)\<lparr>bar := 3\<rparr>) 1 = Some (CHR '' '') \<and>
     voices st1 ! 1 = voices_init ! 1 \<and>
     emph (trigger_voice (CHR ''0'') (voices_init ! 0)) = - 12"
proof -
  let ?s = "(set_timing seq_init)\<lparr>bar := 3\<rparr>"
  have w: "wf demo_sounds ?s"
    using wf_start by (simp add: wf_def wf_transport_def LOOP_BARS_def)
  have z: "sampleOfTick ?s = 0" by (simp add: seq_init_def)
  from trigger_wf[OF w] obtain st1 where t: "trigger ?s = Some st1" by blast
  from generate_sample_wf[OF w, of dc_tone] obtain x st' where
    g: "generate_sample dc_tone demo_sounds ?s = Some (x, st')" by blast
  have c0: "cell ?s 0 = Some (CHR ''9'')"
    by (simp add: cell_def rd_def bars_def patterns_def pattern2_def seq_init_def)
  have c1: "cell ?s 1 = Some (CHR '' '')"
    by (simp add: cell_def rd_def bars_def patterns_def pattern2_def seq_init_def)
  have l0: "(0::int) < int (length (voices ?s))" and l1: "(1::int) < int (length (voices ?s))"
    by (simp_all add: seq_init_def voices_init_def)
  from trigger_iff_not_space[OF z t g _ l0] c0
  have a0: "pos (voices st1 ! 0) = 1 \<and> emph (voices st1 ! 0) = 96 \<and> emph (voices st' ! 0) = 96"
    by simp
  from trigger_iff_not_space[OF z t g _ l1] c1
  have a1: "voices st1 ! 1 = voices_init ! 1" by (simp add: seq_init_def)
  from trigger_iff_not_space[OF z t g _ l0]
  have "emph (trigger_voice (CHR ''0'') (voices_init ! 0)) = - 12" by simp
  with t g c0 c1 a0 a1 show ?thesis by blast
qed

text \<open>
  Claim C4 (playback after a trigger). Let the cell of voice \<open>i\<close> be \<open>'5'\<close> at the first frame
  of a tick, in a well-formed state, and let the voice have an assigned sample of length
  \<open>L\<close>. The trigger step of the call sets the cursor to 1 and the emphasis to \<open>4 * 12\<close>.
  The playback step of the same call and of each later call moves the cursor on by one:
  after \<open>n \<ge> 1\<close> calls, none of the later ones triggering the voice again, the cursor is
  \<open>n + 1\<close> while that is below \<open>L\<close>, and 0 from then on; the emphasis stays \<open>4 * 12\<close>.
\<close>

theorem cursor_of_triggered_voice:
  assumes "wf snds st" and "0 \<le> i" and "i < int (length (voices st))"
    and "sampleOfTick st = 0" and "cell st i = Some (CHR ''5'')"
    and "0 \<le> sample (voices st ! nat i)" and "0 < n"
    and "\<forall>j. 0 < j \<and> j < n \<longrightarrow>
           (\<forall>sj. run tone snds j st = Some sj \<longrightarrow> \<not> triggers sj i)"
  shows "\<exists>st1 sn. trigger st = Some st1 \<and>
           pos (voices st1 ! nat i) = 1 \<and> emph (voices st1 ! nat i) = 4 * 12 \<and>
           run tone snds n st = Some sn \<and> emph (voices sn ! nat i) = 4 * 12 \<and>
           pos (voices sn ! nat i) =
             (if int n + 1 < int (len (snds ! nat (sample (voices st ! nat i))))
              then int n + 1 else 0)"
proof -
  have k: "nat i < length (voices st)" using assms(2,3) by simp
  have c: "cell st (int (nat i)) = Some (CHR ''5'')" using assms(2,5) by simp
  obtain m where n: "n = Suc m" using assms(7) by (cases n) simp_all
  have q: "\<forall>j. 0 < j \<and> j \<le> m \<longrightarrow>
           (\<forall>sj. run tone snds j st = Some sj \<longrightarrow> \<not> triggers sj (int (nat i)))"
    using assms(2,8) n by (simp add: less_Suc_eq_le)
  from cursor_after_trigger[OF assms(1) k assms(4) c _ assms(6) q] obtain sn where
    r: "run tone snds n st = Some sn" and e: "emph (voices sn ! nat i) = 4 * 12"
    and p: "pos (voices sn ! nat i) =
             (if int n + 1 < int (len (snds ! nat (sample (voices st ! nat i))))
              then int n + 1 else 0)"
    using n by (auto simp: add.commute)
  from trigger_wf[OF assms(1)] obtain st1 where t: "trigger st = Some st1" by blast
  from t obtain vs where vs: "trigger_loop st 0 (voices st) = Some vs"
    and st1: "st1 = st\<lparr>voices := vs\<rparr>"
    using assms(4) by (cases rule: trigger_cases) simp_all
  from trigger_loop_nth[OF vs] k c have "vs ! nat i = trigger_voice (CHR ''5'') (voices st ! nat i)"
    by auto
  then have "pos (voices st1 ! nat i) = 1 \<and> emph (voices st1 ! nat i) = 4 * 12"
    using st1 by (simp add: trigger_voice_def)
  with t r e p show ?thesis by (intro exI[of _ st1] exI[of _ sn]) simp
qed

theorem cursor_of_triggered_voice_witness:
  "\<exists>st1 s2 s5.
     cell ((set_timing seq_init)\<lparr>bar := 3\<rparr>) 4 = Some (CHR ''5'') \<and>
     trigger ((set_timing seq_init)\<lparr>bar := 3\<rparr>) = Some st1 \<and>
     pos (voices st1 ! 4) = 1 \<and> emph (voices st1 ! 4) = 48 \<and>
     len (demo_sounds ! 4) = 4 \<and>
     run dc_tone demo_sounds 2 ((set_timing seq_init)\<lparr>bar := 3\<rparr>) = Some s2 \<and>
     pos (voices s2 ! 4) = 3 \<and> emph (voices s2 ! 4) = 48 \<and>
     run dc_tone demo_sounds 5 ((set_timing seq_init)\<lparr>bar := 3\<rparr>) = Some s5 \<and>
     pos (voices s5 ! 4) = 0 \<and> emph (voices s5 ! 4) = 48"
proof -
  let ?s = "(set_timing seq_init)\<lparr>bar := 3\<rparr>"
  have w: "wf demo_sounds ?s"
    using wf_start by (simp add: wf_def wf_transport_def LOOP_BARS_def)
  have z: "sampleOfTick ?s = 0" by (simp add: seq_init_def)
  have c: "cell ?s 4 = Some (CHR ''5'')"
    by (simp add: cell_def rd_def bars_def patterns_def pattern2_def seq_init_def)
  have l: "(4::int) < int (length (voices ?s))" by (simp add: seq_init_def voices_init_def)
  have s: "0 \<le> sample (voices ?s ! nat 4)"
    by (simp add: seq_init_def voices_init_def mk_voice_def)
  have L: "len (demo_sounds ! nat (sample (voices ?s ! nat 4))) = 4"
    by (simp add: seq_init_def voices_init_def mk_voice_def demo_sounds_def sound_of_def)
  have L': "len (demo_sounds ! 4) = 4" by (simp add: demo_sounds_def sound_of_def)
  have spt: "samplesPerTick ?s = 949" by (simp add: set_timing_values)
  have q2: "\<forall>j. 0 < j \<and> j < 2 \<longrightarrow>
      (\<forall>sj. run dc_tone demo_sounds j ?s = Some sj \<longrightarrow> \<not> triggers sj 4)"
    by (rule quiet_within_tick[OF w z]) (simp add: spt)
  have q5: "\<forall>j. 0 < j \<and> j < 5 \<longrightarrow>
      (\<forall>sj. run dc_tone demo_sounds j ?s = Some sj \<longrightarrow> \<not> triggers sj 4)"
    by (rule quiet_within_tick[OF w z]) (simp add: spt)
  from cursor_of_triggered_voice[OF w _ l z c s _ q2] obtain st1 s2 where
    a: "trigger ?s = Some st1" "pos (voices st1 ! 4) = 1" "emph (voices st1 ! 4) = 48"
      "run dc_tone demo_sounds 2 ?s = Some s2" "pos (voices s2 ! 4) = 3" "emph (voices s2 ! 4) = 48"
    using L by auto
  from cursor_of_triggered_voice[OF w _ l z c s _ q5] obtain st1' s5 where
    b: "run dc_tone demo_sounds 5 ?s = Some s5" "pos (voices s5 ! 4) = 0" "emph (voices s5 ! 4) = 48"
    using L by auto
  from a b c L' show ?thesis by blast
qed

text \<open>
  Claim C9 (idle voices), as amended. Let voice \<open>k\<close> have cursor 0 and an assigned sample,
  in a well-formed state, and let the call not trigger it. Then the playback loop reads
  the first amplitude of its waveform, \<open>samples[0]\<close>, the voice is left as it was (cursor
  0), and both accumulators contain that amplitude scaled by the emphasis, volume and pan
  of the voice, next to the terms of the other voices.
\<close>

theorem idle_voice_contributes:
  assumes "wf snds st" and "k < length (voices st)"
    and "pos (voices st ! k) = 0" and "0 \<le> sample (voices st ! k)"
    and "\<not> triggers st (int k)"
  shows "\<exists>st1 as out0 out1 w st'.
      trigger st = Some st1 \<and> play_loop snds (voices st1) = Some (as, voices st') \<and>
      synth snds st = Some ((out0, out1), st1\<lparr>voices := voices st'\<rparr>) \<and>
      generate_sample tone snds st = Some (w, st') \<and>
      as ! k = sint (samples (snds ! nat (sample (voices st ! k))) ! 0) \<and>
      voices st' ! k = voices st ! k \<and> pos (voices st' ! k) = 0 \<and>
      out0 = (emph (voices st ! k) + volume (voices st ! k)) * (as ! k) * pan (voices st ! k) +
             (\<Sum>j \<in> {..<length (voices st)} - {k}.
                (emph (voices st' ! j) + volume (voices st' ! j)) * (as ! j) * pan (voices st' ! j)) \<and>
      out1 = (emph (voices st ! k) + volume (voices st ! k)) * (as ! k) * (32 - pan (voices st ! k)) +
             (\<Sum>j \<in> {..<length (voices st)} - {k}.
                (emph (voices st' ! j) + volume (voices st' ! j)) * (as ! j) *
                (32 - pan (voices st' ! j)))"
proof -
  from generate_sample_wf[OF assms(1), of tone] obtain w st' where
    g: "generate_sample tone snds st = Some (w, st')" by blast
  from g obtain out st2 where s: "synth snds st = Some (out, st2)"
    and t: "(w, st') = test_tone tone (advance st2)" by (rule generate_sample_parts)
  from t have "st' = snd (test_tone tone (advance st2))" by (metis snd_conv)
  then have v': "voices st' = voices st2" by (simp add: test_tone_def Let_def)
  from s obtain st1 as where tr: "trigger st = Some st1"
    and pl: "play_loop snds (voices st1) = Some (as, voices st2)"
    and st2: "st2 = st1\<lparr>voices := voices st2\<rparr>" and out: "out = mix (voices st2) as"
    by (rule synth_parts)
  note p = play_loop_nth[OF pl]
  have l1: "length (voices st1) = length (voices st)"
    using generate_sample_voice(1)[OF g assms(2)] v' p by simp
  have k1: "k < length (voices st1)" using l1 assms(2) by simp
  have pk: "play_voice snds (voices st1 ! k) = Some (as ! k, voices st' ! k)"
    using p k1 v' by simp
  have e1: "voices st1 ! k = voices st ! k"
  proof (cases "sampleOfTick st = 0")
    case True
    with tr obtain vs where vs: "trigger_loop st 0 (voices st) = Some vs"
      and s1: "st1 = st\<lparr>voices := vs\<rparr>" by (cases rule: trigger_cases) simp_all
    from trigger_loop_nth[OF vs] assms(2) obtain c where
      c: "cell st (int k) = Some c" "vs ! k = trigger_voice c (voices st ! k)" by auto
    with assms(5) True have "c = CHR '' ''" by (simp add: triggers_def)
    with c s1 show ?thesis by (simp add: trigger_voice_def)
  next
    case False
    with tr show ?thesis by (cases rule: trigger_cases) simp_all
  qed
  note w = wf_nth_voice[OF assms(1,2)]
  have a: "as ! k = sint (samples (snds ! nat (sample (voices st ! k))) ! 0)"
    using play_voice_cursor(1)[OF pk[unfolded e1] assms(4)] w assms(3) by simp
  have same: "voices st' ! k = voices st ! k"
    using play_voice_idle[OF pk[unfolded e1] assms(3)] .
  have len: "length as = length (voices st2)" "k < length (voices st2)"
    "length (voices st2) = length (voices st)" using p k1 l1 by simp_all
  have s': "synth snds st = Some ((fst out, snd out), st1\<lparr>voices := voices st'\<rparr>)"
    using s st2 v' by simp
  show ?thesis
    using tr pl[folded v'] s' g a same assms(3)
      mix_sum[OF len(1,2), folded out, unfolded len(3), folded v', unfolded same]
    by (intro exI[of _ st1] exI[of _ as] exI[of _ "fst out"] exI[of _ "snd out"]
        exI[of _ w] exI[of _ st']) simp
qed

theorem idle_voice_contributes_witness:
  "\<exists>st1 w st'.
     trigger (set_timing seq_init) = Some st1 \<and>
     play_loop demo_sounds (voices st1) = Some ([1000, 5, 0, - 3, 250, 0], voices st') \<and>
     synth demo_sounds (set_timing seq_init) =
       Some ((3277680, 3098640), st1\<lparr>voices := voices st'\<rparr>) \<and>
     generate_sample dc_tone demo_sounds (set_timing seq_init) = Some (w, st') \<and>
     sint (samples (demo_sounds ! 3) ! 0) = - 3 \<and>
     voices st' ! 3 = mk_voice 18 80 3 0 0 \<and>
     (0 + 80) * (- 3) * 18 = (- 4320 :: int) \<and> (0 + 80) * (- 3) * (32 - 18) = (- 3360 :: int)"
proof -
  let ?s = "set_timing seq_init"
  have k: "3 < length (voices ?s)" by (simp add: seq_init_def voices_init_def)
  have p: "pos (voices ?s ! 3) = 0" and s: "0 \<le> sample (voices ?s ! 3)"
    by (simp_all add: seq_init_def voices_init_def mk_voice_def)
  have "cell ?s 3 = Some (CHR '' '')"
    by (simp add: cell_def rd_def bars_def patterns_def pattern0_def seq_init_def)
  then have nt: "\<not> triggers ?s (int 3)" by (simp add: triggers_def)
  from idle_voice_contributes[OF wf_start k p s nt, of dc_tone]
  obtain st1 as out0 out1 w st' where
    t: "trigger ?s = Some st1" and pl: "play_loop demo_sounds (voices st1) = Some (as, voices st')"
    and sy: "synth demo_sounds ?s = Some ((out0, out1), st1\<lparr>voices := voices st'\<rparr>)"
    and g: "generate_sample dc_tone demo_sounds ?s = Some (w, st')"
    and a: "as ! 3 = sint (samples (demo_sounds ! nat (sample (voices ?s ! 3))) ! 0)"
    and v: "voices st' ! 3 = voices ?s ! 3" by blast
  from t first_frame_trigger have "voices st1 =
     [mk_voice 16 192 0 1 0, mk_voice 8 0 1 0 0, mk_voice 16 40 2 0 0,
      mk_voice 18 80 3 0 0, mk_voice 28 30 4 1 0, mk_voice 4 30 0 0 0]" by auto
  with pl first_frame_play have as: "as = [1000, 5, 0, - 3, 250, 0]" by simp
  from sy first_frame_synth have o: "out0 = 3277680" "out1 = 3098640" by simp_all
  have "sint (samples (demo_sounds ! 3) ! 0) = - 3"
    by (simp add: demo_sounds_def sound_of_def)
  moreover have "voices st' ! 3 = mk_voice 18 80 3 0 0"
    using v by (simp add: seq_init_def voices_init_def)
  ultimately show ?thesis using t pl sy g as o
    by (intro exI[of _ st1] exI[of _ w] exI[of _ st']) simp
qed

text \<open>
  Claim C9 as stated speaks of every voice whose cursor is 0 when the call is made. At
  the first frame after start voice 0 has cursor 0 and sample 0, and its cell is \<open>'1'\<close>:
  the trigger step sets the cursor to 1, the amplitude read is \<open>samples[1] = 1000\<close>, not
  \<open>samples[0] = 0\<close>, and the cursor is 2 when the call returns.
\<close>

theorem idle_at_entry_counterexample:
  "pos (voices (set_timing seq_init) ! 0) = 0 \<and> 0 \<le> sample (voices (set_timing seq_init) ! 0) \<and>
   samples (demo_sounds ! 0) = [0, 1000, - 1000] \<and>
   trigger (set_timing seq_init) = Some ((set_timing seq_init)\<lparr>voices :=
     [mk_voice 16 192 0 1 0, mk_voice 8 0 1 0 0, mk_voice 16 40 2 0 0,
      mk_voice 18 80 3 0 0, mk_voice 28 30 4 1 0, mk_voice 4 30 0 0 0]\<rparr>) \<and>
   play_loop demo_sounds
     [mk_voice 16 192 0 1 0, mk_voice 8 0 1 0 0, mk_voice 16 40 2 0 0,
      mk_voice 18 80 3 0 0, mk_voice 28 30 4 1 0, mk_voice 4 30 0 0 0]
   = Some ([1000, 5, 0, - 3, 250, 0],
       [mk_voice 16 192 0 2 0, mk_voice 8 0 1 0 0, mk_voice 16 40 2 0 0,
        mk_voice 18 80 3 0 0, mk_voice 28 30 4 2 0, mk_voice 4 30 0 0 0]) \<and>
   generate_sample dc_tone demo_sounds (set_timing seq_init) =
     Some (983055000,
       \<lparr>bar = 0, tickOfBar = 0, sampleOfTick = 1, samplesPerBeat = 17085, samplesPerTick = 949,
        voices = [mk_voice 16 192 0 2 0, mk_voice 8 0 1 0 0, mk_voice 16 40 2 0 0,
                  mk_voice 18 80 3 0 0, mk_voice 28 30 4 2 0, mk_voice 4 30 0 0 0],
        index1 = 1\<rparr>) \<and>
   pos (mk_voice 16 192 0 2 0) = 2"
  using first_frame[of dc_tone] first_frame_trigger first_frame_play
  by (simp add: dc_tone_def smpl_d1_dc seq_init_def voices_init_def mk_voice_def demo_sounds_def
        sound_of_def)

text \<open>
  Claim C1 (the emitted word) against the code. At the first frame after start, on the
  example bank, the accumulators of the mix are 3277680 and 3098640, and the disabled
  return statement would pack them as 6553694. The word that \<open>generate_sample\<close> returns
  is made of the test tone at \<open>index1 = 0\<close> alone, for every tone function: 983055000 for
  the value 15000.
\<close>

theorem debug_tone_returned:
  "\<forall>tone.
     synth demo_sounds (set_timing seq_init) =
       Some ((3277680, 3098640), (set_timing seq_init)\<lparr>voices :=
         [mk_voice 16 192 0 2 0, mk_voice 8 0 1 0 0, mk_voice 16 40 2 0 0,
          mk_voice 18 80 3 0 0, mk_voice 28 30 4 2 0, mk_voice 4 30 0 0 0]\<rparr>) \<and>
     generate_sample tone demo_sounds (set_timing seq_init) =
       Some (smpl_d1 (tone 0) (tone 0),
         \<lparr>bar = 0, tickOfBar = 0, sampleOfTick = 1, samplesPerBeat = 17085, samplesPerTick = 949,
          voices = [mk_voice 16 192 0 2 0, mk_voice 8 0 1 0 0, mk_voice 16 40 2 0 0,
                    mk_voice 18 80 3 0 0, mk_voice 28 30 4 2 0, mk_voice 4 30 0 0 0],
          index1 = 1\<rparr>) \<and>
     smpl_d1 (dc_tone 0) (dc_tone 0) = 983055000 \<and>
     disabled_return (3277680, 3098640) = 6553694"
  using first_frame first_frame_synth by (simp add: dc_tone_def smpl_d1_dc disabled_return_def)

text \<open>
  Claim C5 (looping) against the code. One arrangement is \<open>10 * 72 * 949\<close> calls. From the
  start state, on the example bank and for every tone function, these calls return and
  bring \<open>bar\<close>, \<open>tickOfBar\<close> and \<open>sampleOfTick\<close> back to 0, as the claim says. The counter
  \<open>index1\<close> of the test tone is 80 then, not 0 as at the start, and the word emitted at the
  first frame of the second pass is the tone at 80, where the first pass emitted the tone
  at 0.
\<close>

theorem loop_restarts_transport_not_tone:
  "\<forall>tone. \<exists>sN.
     run tone demo_sounds (10 * 72 * 949) (set_timing seq_init) = Some sN \<and>
     bar sN = 0 \<and> tickOfBar sN = 0 \<and> sampleOfTick sN = 0 \<and>
     samplesPerTick sN = 949 \<and> index1 sN = 80 \<and> index1 (set_timing seq_init) = 0 \<and>
     emitted tone demo_sounds 0 (set_timing seq_init) = Some (smpl_d1 (tone 0) (tone 0)) \<and>
     emitted tone demo_sounds (10 * 72 * 949) (set_timing seq_init)
       = Some (smpl_d1 (tone 80) (tone 80))"
proof
  fix tone
  let ?s = "set_timing seq_init"
  define N :: nat where "N = 10 * 72 * 949"
  have z: "sampleOfTick ?s = 0" "tickOfBar ?s = 0" "bar ?s = 0" "index1 ?s = 0"
    by (simp_all add: seq_init_def)
  have n: "nat LOOP_BARS * (nat BAR_LEN * nat (samplesPerTick ?s)) = N"
    by (simp add: LOOP_BARS_def BAR_LEN_def set_timing_values N_def)
  have Nm: "int N mod 400 = 80" by (simp add: N_def)
  from run_arrangement[OF wf_start z(1,2,3), of tone] obtain sN where
    r: "run tone demo_sounds N ?s = Some sN"
    and t: "sampleOfTick sN = 0" "tickOfBar sN = 0" "bar sN = 0" unfolding n by blast
  have i0: "0 \<le> index1 ?s" "index1 ?s \<le> 400" using z(4) by simp_all
  from index1_run[OF r i0] have "1 \<le> index1 sN" "index1 sN \<le> 400"
    "index1 sN mod 400 = 80" unfolding z(4) using Nm by (simp_all add: N_def)
  then have i: "index1 sN = 80" by (cases "index1 sN = 400") simp_all
  have spt: "samplesPerTick sN = 949" using run_timing[OF r] set_timing_values(2)[of seq_init]
    by simp
  have e0: "emitted tone demo_sounds 0 ?s = Some (smpl_d1 (tone 0) (tone 0))"
    using emitted_tone[OF wf_start i0, of tone 0] unfolding z(4) by simp
  have eN: "emitted tone demo_sounds N ?s = Some (smpl_d1 (tone 80) (tone 80))"
    using emitted_tone[OF wf_start i0, of tone N] unfolding z(4) using Nm by simp
  have "run tone demo_sounds N ?s = Some sN \<and>
     bar sN = 0 \<and> tickOfBar sN = 0 \<and> sampleOfTick sN = 0 \<and>
     samplesPerTick sN = 949 \<and> index1 sN = 80 \<and> index1 ?s = 0 \<and>
     emitted tone demo_sounds 0 ?s = Some (smpl_d1 (tone 0) (tone 0)) \<and>
     emitted tone demo_sounds N ?s = Some (smpl_d1 (tone 80) (tone 80))"
    using r t i spt z(4) e0 eN by blast
  then show "\<exists>sN.
     run tone demo_sounds (10 * 72 * 949) (set_timing seq_init) = Some sN \<and>
     bar sN = 0 \<and> tickOfBar sN = 0 \<and> sampleOfTick sN = 0 \<and>
     samplesPerTick sN = 949 \<and> index1 sN = 80 \<and> index1 (set_timing seq_init) = 0 \<and>
     emitted tone demo_sounds 0 (set_timing seq_init) = Some (smpl_d1 (tone 0) (tone 0)) \<and>
     emitted tone demo_sounds (10 * 72 * 949) (set_timing seq_init)
       = Some (smpl_d1 (tone 80) (tone 80))" unfolding N_def by (rule exI)
qed

text \<open>
  Claim C6 (pan invariance), as amended. From a well-formed state the mix of the frame is
  computed from the amplitudes the playback loop reads, one per voice: for a voice with an
  assigned sample the amplitude at its cursor (the first amplitude of the waveform when
  the cursor is 0), and 0 for a voice without one. The sum of the two accumulators is 32
  times the sum over all voices of \<open>(emph + volume) * amplitude\<close>, in which no pan value
  occurs. When every voice but \<open>k\<close> reads the amplitude 0, the left accumulator is
  \<open>(emph + volume) * amplitude * pan\<close> of voice \<open>k\<close>, the right one is
  \<open>(emph + volume) * amplitude * (32 - pan)\<close>, and their sum is
  \<open>amplitude * (emph + volume) * 32\<close>.
\<close>

theorem frame_mix_pan_invariant:
  assumes "wf snds st"
  shows "\<exists>st1 as out0 out1 st2.
      trigger st = Some st1 \<and> play_loop snds (voices st1) = Some (as, voices st2) \<and>
      synth snds st = Some ((out0, out1), st2) \<and>
      length as = length (voices st2) \<and> length (voices st2) = length (voices st) \<and>
      (\<forall>j<length (voices st2).
         as ! j = (if 0 \<le> sample (voices st1 ! j)
                   then sint (samples (snds ! nat (sample (voices st1 ! j))) ! nat (pos (voices st1 ! j)))
                   else 0)) \<and>
      out0 + out1 =
        32 * (\<Sum>j<length (voices st2). (emph (voices st2 ! j) + volume (voices st2 ! j)) * (as ! j)) \<and>
      (\<forall>k<length (voices st2). (\<forall>j<length (voices st2). j \<noteq> k \<longrightarrow> as ! j = 0) \<longrightarrow>
         out0 = (emph (voices st2 ! k) + volume (voices st2 ! k)) * (as ! k) * pan (voices st2 ! k) \<and>
         out1 = (emph (voices st2 ! k) + volume (voices st2 ! k)) * (as ! k) *
                (32 - pan (voices st2 ! k)) \<and>
         out0 + out1 = as ! k * (emph (voices st2 ! k) + volume (voices st2 ! k)) * 32)"
proof -
  from trigger_wf[OF assms] obtain st1 where tr: "trigger st = Some st1" and w1: "wf snds st1"
    by blast
  have ws: "wf_sounds snds" and wv: "\<forall>v \<in> set (voices st1). wf_voice snds v"
    using w1 by (simp_all add: wf_def)
  have "\<forall>v \<in> set (voices st1). \<exists>a v'. play_voice snds v = Some (a, v')"
    using play_voice_wf[OF ws] wv by blast
  from play_loop_defined[OF this] obtain as vs where pl: "play_loop snds (voices st1) = Some (as, vs)"
    by blast
  note p = play_loop_nth[OF pl]
  define st2 where "st2 = st1\<lparr>voices := vs\<rparr>"
  have v2: "voices st2 = vs" by (simp add: st2_def)
  have sy: "synth snds st = Some (mix vs as, st2)" using tr pl by (simp add: synth_def st2_def)
  have l1: "length (voices st1) = length (voices st)"
    using tr
  proof (cases rule: trigger_cases)
    case 1
    then show ?thesis by simp
  next
    case (2 ws)
    from trigger_loop_nth[OF 2(2)] 2(3) show ?thesis by simp
  qed
  have len: "length as = length vs" "length vs = length (voices st)" using p l1 by simp_all
  have amp: "\<forall>j<length vs.
         as ! j = (if 0 \<le> sample (voices st1 ! j)
                   then sint (samples (snds ! nat (sample (voices st1 ! j))) ! nat (pos (voices st1 ! j)))
                   else 0)"
  proof (intro allI impI)
    fix j assume "j < length vs"
    then have "play_voice snds (voices st1 ! j) = Some (as ! j, vs ! j)" using p by simp
    then show "as ! j = (if 0 \<le> sample (voices st1 ! j)
                   then sint (samples (snds ! nat (sample (voices st1 ! j))) ! nat (pos (voices st1 ! j)))
                   else 0)" by (rule play_voice_amplitude)
  qed
  have tot: "fst (mix vs as) + snd (mix vs as) =
        32 * (\<Sum>j<length vs. (emph (vs ! j) + volume (vs ! j)) * (as ! j))"
  proof -
    have "fst (mix vs as) + snd (mix vs as) =
        (\<Sum>j<length vs. (emph (vs ! j) + volume (vs ! j)) * (as ! j) * pan (vs ! j)) +
        (\<Sum>j<length vs. (emph (vs ! j) + volume (vs ! j)) * (as ! j) * (32 - pan (vs ! j)))"
      using mix_loop_sum[OF len(1), of 0 0] by (simp add: mix_def)
    also have "\<dots> = (\<Sum>j<length vs. 32 * ((emph (vs ! j) + volume (vs ! j)) * (as ! j)))"
      by (simp add: sum.distrib[symmetric] algebra_simps)
    also have "\<dots> = 32 * (\<Sum>j<length vs. (emph (vs ! j) + volume (vs ! j)) * (as ! j))"
      by (simp add: sum_distrib_left)
    finally show ?thesis .
  qed
  have single: "fst (mix vs as) = (emph (vs ! k) + volume (vs ! k)) * (as ! k) * pan (vs ! k) \<and>
         snd (mix vs as) = (emph (vs ! k) + volume (vs ! k)) * (as ! k) * (32 - pan (vs ! k)) \<and>
         fst (mix vs as) + snd (mix vs as) = as ! k * (emph (vs ! k) + volume (vs ! k)) * 32"
    if "k < length vs" "\<forall>j<length vs. j \<noteq> k \<longrightarrow> as ! j = 0" for k
  proof -
    have "mix vs as =
       ((emph (vs ! k) + volume (vs ! k)) * (as ! k) * pan (vs ! k),
        (emph (vs ! k) + volume (vs ! k)) * (as ! k) * (32 - pan (vs ! k)))"
      unfolding mix_def using mix_loop_single[OF len(1) that, of 0 0] by simp
    then show ?thesis by (simp add: algebra_simps)
  qed
  have "trigger st = Some st1 \<and> play_loop snds (voices st1) = Some (as, voices st2) \<and>
      synth snds st = Some ((fst (mix vs as), snd (mix vs as)), st2) \<and>
      length as = length (voices st2) \<and> length (voices st2) = length (voices st) \<and>
      (\<forall>j<length (voices st2).
         as ! j = (if 0 \<le> sample (voices st1 ! j)
                   then sint (samples (snds ! nat (sample (voices st1 ! j))) ! nat (pos (voices st1 ! j)))
                   else 0)) \<and>
      fst (mix vs as) + snd (mix vs as) =
        32 * (\<Sum>j<length (voices st2). (emph (voices st2 ! j) + volume (voices st2 ! j)) * (as ! j)) \<and>
      (\<forall>k<length (voices st2). (\<forall>j<length (voices st2). j \<noteq> k \<longrightarrow> as ! j = 0) \<longrightarrow>
         fst (mix vs as) = (emph (voices st2 ! k) + volume (voices st2 ! k)) * (as ! k) * pan (voices st2 ! k) \<and>
         snd (mix vs as) = (emph (voices st2 ! k) + volume (voices st2 ! k)) * (as ! k) *
                (32 - pan (voices st2 ! k)) \<and>
         fst (mix vs as) + snd (mix vs as) = as ! k * (emph (voices st2 ! k) + volume (voices st2 ! k)) * 32)"
    unfolding v2 using tr pl sy len amp tot single by (intro conjI allI impI) simp_all
  then show ?thesis by blast
qed

theorem frame_mix_pan_invariant_witness:
  "\<exists>st2.
     synth zero_start_sounds ((set_timing seq_init)\<lparr>tickOfBar := 31\<rparr>)
       = Some ((3072000, 3072000), st2) \<and>
     play_loop zero_start_sounds
       [mk_voice 16 192 0 1 0, mk_voice 8 0 1 0 0, mk_voice 16 40 2 0 0,
        mk_voice 18 80 3 0 0, mk_voice 28 30 4 0 0, mk_voice 4 30 0 0 0]
       = Some ([1000, 0, 0, 0, 0, 0], voices st2) \<and>
     3072000 + 3072000 = (1000 :: int) * (0 + 192) * 32"
proof -
  let ?s = "(set_timing seq_init)\<lparr>tickOfBar := 31\<rparr>"
  let ?vs1 = "[mk_voice 16 192 0 1 0, mk_voice 8 0 1 0 0, mk_voice 16 40 2 0 0,
        mk_voice 18 80 3 0 0, mk_voice 28 30 4 0 0, mk_voice 4 30 0 0 0]"
  from frame_mix_pan_invariant[OF wf_tick31_zero] obtain st1 as out0 out1 st2 where
    tr: "trigger ?s = Some st1"
    and pl: "play_loop zero_start_sounds (voices st1) = Some (as, voices st2)"
    and sy: "synth zero_start_sounds ?s = Some ((out0, out1), st2)"
    and single: "\<forall>k<length (voices st2). (\<forall>j<length (voices st2). j \<noteq> k \<longrightarrow> as ! j = 0) \<longrightarrow>
         out0 = (emph (voices st2 ! k) + volume (voices st2 ! k)) * (as ! k) * pan (voices st2 ! k) \<and>
         out1 = (emph (voices st2 ! k) + volume (voices st2 ! k)) * (as ! k) *
                (32 - pan (voices st2 ! k)) \<and>
         out0 + out1 = as ! k * (emph (voices st2 ! k) + volume (voices st2 ! k)) * 32"
    by blast
  from tr tick31_trigger have v1: "voices st1 = ?vs1" by auto
  from pl[unfolded v1] tick31_play_zero have as: "as = [1000, 0, 0, 0, 0, 0]"
    and v2: "voices st2 = [mk_voice 16 192 0 2 0, mk_voice 8 0 1 0 0, mk_voice 16 40 2 0 0,
        mk_voice 18 80 3 0 0, mk_voice 28 30 4 0 0, mk_voice 4 30 0 0 0]" by simp_all
  have k: "0 < length (voices st2)" by (simp add: v2)
  have z: "\<forall>j<length (voices st2). j \<noteq> 0 \<longrightarrow> as ! j = 0"
    by (simp add: v2 as nth_Cons split: nat.split)
  from single k z have "out0 = (emph (voices st2 ! 0) + volume (voices st2 ! 0)) * (as ! 0) *
        pan (voices st2 ! 0) \<and>
      out1 = (emph (voices st2 ! 0) + volume (voices st2 ! 0)) * (as ! 0) *
        (32 - pan (voices st2 ! 0))" by blast
  then have "out0 = 3072000" "out1 = 3072000"
    by (simp_all add: v2 as mk_voice_def)
  with sy pl[unfolded v1] as show ?thesis by simp
qed

text \<open>
  Claim C6 as stated speaks of a single active voice. At the first frame of tick 31 of bar
  0, with every voice at cursor 0, the kick voice alone is triggered and plays the
  amplitude 1000 with volume 192. On the example bank the idle clap and hihat voices read
  the first amplitudes 5 and -3 of their waveforms: the accumulators are 3067680 and
  3068640, and their sum 6136320 is not \<open>1000 * 192 * 32 = 6144000\<close>.
\<close>

theorem single_active_voice_counterexample:
  "trigger ((set_timing seq_init)\<lparr>tickOfBar := 31\<rparr>) =
     Some ((set_timing seq_init)\<lparr>tickOfBar := 31, voices :=
       [mk_voice 16 192 0 1 0, mk_voice 8 0 1 0 0, mk_voice 16 40 2 0 0,
        mk_voice 18 80 3 0 0, mk_voice 28 30 4 0 0, mk_voice 4 30 0 0 0]\<rparr>) \<and>
   play_loop demo_sounds
     [mk_voice 16 192 0 1 0, mk_voice 8 0 1 0 0, mk_voice 16 40 2 0 0,
      mk_voice 18 80 3 0 0, mk_voice 28 30 4 0 0, mk_voice 4 30 0 0 0]
   = Some ([1000, 5, 0, - 3, 0, 0],
       [mk_voice 16 192 0 2 0, mk_voice 8 0 1 0 0, mk_voice 16 40 2 0 0,
        mk_voice 18 80 3 0 0, mk_voice 28 30 4 0 0, mk_voice 4 30 0 0 0]) \<and>
   synth demo_sounds ((set_timing seq_init)\<lparr>tickOfBar := 31\<rparr>) =
     Some ((3067680, 3068640), (set_timing seq_init)\<lparr>tickOfBar := 31, voices :=
       [mk_voice 16 192 0 2 0, mk_voice 8 0 1 0 0, mk_voice 16 40 2 0 0,
        mk_voice 18 80 3 0 0, mk_voice 28 30 4 0 0, mk_voice 4 30 0 0 0]\<rparr>) \<and>
   3067680 + 3068640 = (6136320 :: int) \<and> (1000 :: int) * (0 + 192) * 32 = 6144000 \<and>
   3067680 + 3068640 \<noteq> (1000 :: int) * (0 + 192) * 32"
  using tick31_trigger tick31_play tick31_synth by simp

end
